theory Spec2Isabelle
  imports
    Main
    "HOL-Library.Word"
    "HOL-Library.Monad_Syntax"
    "HOL-Library.Multiset"
    "HOL-Library.Sublist"
begin

section \<open>Memory model\<close>

text \<open>
  A \<^verbatim>\<open>struct list_head *\<close> is an address; address \<open>0\<close> is \<^verbatim>\<open>NULL\<close>.  The heap
  holds, per address, the two link fields of the \<^verbatim>\<open>struct list_head\<close> stored there,
  and, for the \<^verbatim>\<open>list\<close> member of a live \<^verbatim>\<open>element_t\<close>, the C string its
  \<^verbatim>\<open>value\<close> field points to (\<open>container_of\<close> is the identity on addresses; the
  sentinel of a queue has no value).  \<open>alloc\<close> is the set of addresses of live objects.
  Every operation returns \<open>None\<close> when the C program would dereference \<^verbatim>\<open>NULL\<close>
  or a dead object, and a loop that does not terminate has the value \<open>None\<close> too.
\<close>

type_synonym ptr = nat

record heap =
  nxt :: "ptr \<Rightarrow> ptr"
  prv :: "ptr \<Rightarrow> ptr"
  val :: "ptr \<Rightarrow> string option"
  alloc :: "ptr set"

definition valid :: "heap \<Rightarrow> ptr \<Rightarrow> bool" where
  "valid h p \<longleftrightarrow> p \<noteq> 0 \<and> p \<in> alloc h"

definition get_next :: "heap \<Rightarrow> ptr \<Rightarrow> ptr option" where
  "get_next h p = (if valid h p then Some (nxt h p) else None)"

definition get_prev :: "heap \<Rightarrow> ptr \<Rightarrow> ptr option" where
  "get_prev h p = (if valid h p then Some (prv h p) else None)"

definition set_next :: "ptr \<Rightarrow> ptr \<Rightarrow> heap \<Rightarrow> heap option" where
  "set_next p q h = (if valid h p then Some (h\<lparr>nxt := (nxt h)(p := q)\<rparr>) else None)"

definition set_prev :: "ptr \<Rightarrow> ptr \<Rightarrow> heap \<Rightarrow> heap option" where
  "set_prev p q h = (if valid h p then Some (h\<lparr>prv := (prv h)(p := q)\<rparr>) else None)"

text \<open>\<^verbatim>\<open>list_entry(p, element_t, list)->value\<close>: defined only on the link of a live element.\<close>

definition get_value :: "heap \<Rightarrow> ptr \<Rightarrow> string option" where
  "get_value h p = (if valid h p then val h p else None)"

subsection \<open>The C library\<close>

text \<open>
  \<^verbatim>\<open>strcmp\<close> of the C library on the contents of two strings: the sign of the
  difference of the first pair of differing bytes, read as \<^verbatim>\<open>unsigned char\<close>; a
  proper prefix is smaller.
\<close>

fun strcmp :: "string \<Rightarrow> string \<Rightarrow> int" where
  "strcmp [] [] = 0"
| "strcmp [] (y # ys) = - 1"
| "strcmp (x # xs) [] = 1"
| "strcmp (x # xs) (y # ys) =
     (if x = y then strcmp xs ys
      else if (of_char x :: nat) < of_char y then - 1 else 1)"

text \<open>
  \<^verbatim>\<open>strncpy(dst, src, n)\<close> writes exactly \<open>n\<close> bytes to the buffer: the first \<open>n\<close>
  characters of \<open>src\<close>, padded with NUL when \<open>src\<close> is shorter.  The buffer is the list
  of its bytes; writing past its end is a fault.
\<close>

definition strncpy :: "char list \<Rightarrow> string \<Rightarrow> nat \<Rightarrow> char list option" where
  "strncpy dst src n =
     (if n \<le> length dst
      then Some (take n src @ replicate (n - length src) (CHR 0x00) @ drop n dst)
      else None)"

definition store_char :: "char list \<Rightarrow> nat \<Rightarrow> char \<Rightarrow> char list option" where
  "store_char buf i c = (if i < length buf then Some (buf[i := c]) else None)"

subsection \<open>The list primitives\<close>

text \<open>
  Modelled from the spec: the header \<^verbatim>\<open>list.h\<close> is not part of the sources; section
  4.1 of the specification gives the contract of its operations (insert after or before
  an anchor updating four pointers, remove splicing the node out and relinking its
  neighbours while leaving the node's own links alone, move as remove-then-insert), and
  an empty ring is \<^verbatim>\<open>sentinel.next == sentinel\<close>.
\<close>

definition INIT_LIST_HEAD :: "ptr \<Rightarrow> heap \<Rightarrow> heap option" where
  "INIT_LIST_HEAD head h = do { h1 \<leftarrow> set_next head head h; set_prev head head h1 }"

definition list_empty :: "heap \<Rightarrow> ptr \<Rightarrow> bool option" where
  "list_empty h head = do { n \<leftarrow> get_next h head; Some (n = head) }"

definition list_add :: "ptr \<Rightarrow> ptr \<Rightarrow> heap \<Rightarrow> heap option" where
  "list_add node head h = do {
     next \<leftarrow> get_next h head;
     h1 \<leftarrow> set_prev next node h;
     h2 \<leftarrow> set_next node next h1;
     h3 \<leftarrow> set_prev node head h2;
     set_next head node h3 }"

definition list_add_tail :: "ptr \<Rightarrow> ptr \<Rightarrow> heap \<Rightarrow> heap option" where
  "list_add_tail node head h = do {
     prev \<leftarrow> get_prev h head;
     h1 \<leftarrow> set_next prev node h;
     h2 \<leftarrow> set_next node head h1;
     h3 \<leftarrow> set_prev node prev h2;
     set_prev head node h3 }"

definition list_del :: "ptr \<Rightarrow> heap \<Rightarrow> heap option" where
  "list_del node h = do {
     next \<leftarrow> get_next h node;
     prev \<leftarrow> get_prev h node;
     h1 \<leftarrow> set_prev next prev h;
     set_next prev next h1 }"

definition list_del_init :: "ptr \<Rightarrow> heap \<Rightarrow> heap option" where
  "list_del_init node h = do { h1 \<leftarrow> list_del node h; INIT_LIST_HEAD node h1 }"

definition list_move :: "ptr \<Rightarrow> ptr \<Rightarrow> heap \<Rightarrow> heap option" where
  "list_move node head h = do { h1 \<leftarrow> list_del node h; list_add node head h1 }"

text \<open>
  Modelled from the spec: \<^verbatim>\<open>q_release_element\<close> is declared in \<^verbatim>\<open>queue.h\<close>, which is
  not part of the sources; it is the external release collaborator of section 3, which
  takes back an element (its string and the element itself) that was unlinked.
\<close>

definition q_release_element :: "ptr \<Rightarrow> heap \<Rightarrow> heap option" where
  "q_release_element e h =
     (if valid h e \<and> val h e \<noteq> None
      then Some (h\<lparr>val := (val h)(e := None), alloc := alloc h - {e}\<rparr>)
      else None)"

section \<open>The queue operations\<close>

text \<open>
  \<^verbatim>\<open>q_insert_head(head, s)\<close>.  The results of the two allocations are inputs:
  \<open>newh\<close> is what \<^verbatim>\<open>malloc\<close> returns (\<open>0\<close> on failure, otherwise an address that is
  not live), \<open>dup_ok\<close> tells whether \<^verbatim>\<open>strdup\<close> succeeds.
\<close>

definition q_insert_head :: "ptr \<Rightarrow> string \<Rightarrow> ptr \<Rightarrow> bool \<Rightarrow> heap \<Rightarrow> (bool \<times> heap) option" where
  "q_insert_head head s newh dup_ok h =
     (if head = 0 then Some (False, h)
      else if newh = 0 then Some (False, h)
      else if newh \<in> alloc h then None
      else if \<not> dup_ok then Some (False, h)
      else do {
        h1 \<leftarrow> list_add newh head (h\<lparr>val := (val h)(newh \<mapsto> s), alloc := insert newh (alloc h)\<rparr>);
        Some (True, h1) })"

definition q_insert_tail :: "ptr \<Rightarrow> string \<Rightarrow> ptr \<Rightarrow> bool \<Rightarrow> heap \<Rightarrow> (bool \<times> heap) option" where
  "q_insert_tail head s newt dup_ok h =
     (if head = 0 then Some (False, h)
      else if newt = 0 then Some (False, h)
      else if newt \<in> alloc h then None
      else if \<not> dup_ok then Some (False, h)
      else do {
        h1 \<leftarrow> list_add_tail newt head (h\<lparr>val := (val h)(newt \<mapsto> s), alloc := insert newt (alloc h)\<rparr>);
        Some (True, h1) })"

text \<open>
  The copy of the removed value into the caller's buffer \<open>sp\<close> (\<open>None\<close> is a
  \<^verbatim>\<open>NULL\<close> buffer): \<^verbatim>\<open>strncpy(sp, ele->value, bufsize - 1); sp[bufsize - 1] = '\0'\<close>,
  with \<^verbatim>\<open>size_t\<close> arithmetic on \<open>bufsize\<close>.
\<close>

definition copy_out :: "heap \<Rightarrow> ptr \<Rightarrow> char list option \<Rightarrow> 64 word \<Rightarrow> char list option option" where
  "copy_out h ele sp bufsize =
     (case sp of
        None \<Rightarrow> Some None
      | Some buf \<Rightarrow> do {
          v \<leftarrow> get_value h ele;
          b1 \<leftarrow> strncpy buf v (unat (bufsize - 1));
          b2 \<leftarrow> store_char b1 (unat (bufsize - 1)) (CHR 0x00);
          Some (Some b2) })"

definition q_remove_head :: "ptr \<Rightarrow> char list option \<Rightarrow> 64 word \<Rightarrow> heap \<Rightarrow> (ptr \<times> char list option \<times> heap) option" where
  "q_remove_head head sp bufsize h =
     (if head = 0 then Some (0, sp, h)
      else do {
        e \<leftarrow> list_empty h head;
        if e then Some (0, sp, h)
        else do {
          ele \<leftarrow> get_next h head;
          sp' \<leftarrow> copy_out h ele sp bufsize;
          h' \<leftarrow> list_del ele h;
          Some (ele, sp', h') } })"

definition q_remove_tail :: "ptr \<Rightarrow> char list option \<Rightarrow> 64 word \<Rightarrow> heap \<Rightarrow> (ptr \<times> char list option \<times> heap) option" where
  "q_remove_tail head sp bufsize h =
     (if head = 0 then Some (0, sp, h)
      else do {
        e \<leftarrow> list_empty h head;
        if e then Some (0, sp, h)
        else do {
          ele \<leftarrow> get_prev h head;
          sp' \<leftarrow> copy_out h ele sp bufsize;
          h' \<leftarrow> list_del ele h;
          Some (ele, sp', h') } })"

text \<open>\<^verbatim>\<open>q_size\<close>: the counter is an \<^verbatim>\<open>int\<close>, whose overflow is undefined behaviour.\<close>

partial_function (option) q_size_loop :: "ptr \<Rightarrow> ptr \<Rightarrow> int \<Rightarrow> heap \<Rightarrow> int option" where
  "q_size_loop head li len h =
     (if li \<noteq> head then
        (if len = 2147483647 then None
         else do { n \<leftarrow> get_next h li; q_size_loop head n (len + 1) h })
      else Some len)"

definition q_size :: "ptr \<Rightarrow> heap \<Rightarrow> int option" where
  "q_size head h =
     (if head = 0 then Some 0
      else do { li \<leftarrow> get_next h head; q_size_loop head li 0 h })"

text \<open>\<^verbatim>\<open>q_delete_mid\<close>: the slow pointer advances once for two steps of the fast one.\<close>

partial_function (option) q_delete_mid_loop :: "ptr \<Rightarrow> ptr \<Rightarrow> ptr \<Rightarrow> heap \<Rightarrow> ptr option" where
  "q_delete_mid_loop head slow fast h =
     (if fast \<noteq> head then do {
        fn \<leftarrow> get_next h fast;
        if fn \<noteq> head then do {
          slow' \<leftarrow> get_next h slow;
          fast' \<leftarrow> get_next h fn;
          q_delete_mid_loop head slow' fast' h }
        else Some slow }
      else Some slow)"

definition q_delete_mid :: "ptr \<Rightarrow> heap \<Rightarrow> (bool \<times> heap) option" where
  "q_delete_mid head h =
     (if head = 0 then Some (False, h)
      else do {
        e \<leftarrow> list_empty h head;
        if e then Some (False, h)
        else do {
          first \<leftarrow> get_next h head;
          to_delete \<leftarrow> q_delete_mid_loop head first first h;
          h1 \<leftarrow> list_del_init to_delete h;
          h2 \<leftarrow> q_release_element to_delete h1;
          Some (True, h2) } })"

text \<open>
  \<^verbatim>\<open>q_delete_dup\<close>: the walk of \<^verbatim>\<open>list_for_each_entry_safe\<close> keeps the successor
  \<open>next_ele\<close> read before the body runs.
\<close>

partial_function (option) q_delete_dup_loop :: "ptr \<Rightarrow> ptr \<Rightarrow> ptr \<Rightarrow> bool \<Rightarrow> heap \<Rightarrow> heap option" where
  "q_delete_dup_loop head curr_ele next_ele is_dup h =
     (if curr_ele \<noteq> head then do {
        cn \<leftarrow> get_next h curr_ele;
        same \<leftarrow> (if cn \<noteq> head
                 then do { cv \<leftarrow> get_value h curr_ele; nv \<leftarrow> get_value h next_ele;
                           Some (strcmp cv nv = 0) }
                 else Some False);
        r \<leftarrow> (if same then do {
                 h1 \<leftarrow> list_del curr_ele h; h2 \<leftarrow> q_release_element curr_ele h1;
                 Some (True, h2) }
              else if is_dup then do {
                 h1 \<leftarrow> list_del curr_ele h; h2 \<leftarrow> q_release_element curr_ele h1;
                 Some (False, h2) }
              else Some (is_dup, h));
        nn \<leftarrow> get_next (snd r) next_ele;
        q_delete_dup_loop head next_ele nn (fst r) (snd r) }
      else Some h)"

definition q_delete_dup :: "ptr \<Rightarrow> heap \<Rightarrow> (bool \<times> heap) option" where
  "q_delete_dup head h =
     (if head = 0 then Some (False, h)
      else do {
        e \<leftarrow> list_empty h head;
        if e then Some (False, h)
        else do {
          curr_ele \<leftarrow> get_next h head;
          next_ele \<leftarrow> get_next h curr_ele;
          h' \<leftarrow> q_delete_dup_loop head curr_ele next_ele False h;
          Some (True, h') } })"

partial_function (option) q_swap_loop :: "ptr \<Rightarrow> ptr \<Rightarrow> heap \<Rightarrow> heap option" where
  "q_swap_loop head first h =
     (if first \<noteq> head then do {
        second \<leftarrow> get_next h first;
        if second \<noteq> head then do {
          h1 \<leftarrow> list_move first second h;
          first' \<leftarrow> get_next h1 first;
          q_swap_loop head first' h1 }
        else Some h }
      else Some h)"

definition q_swap :: "ptr \<Rightarrow> heap \<Rightarrow> heap option" where
  "q_swap head h =
     (if head = 0 then Some h
      else do {
        e \<leftarrow> list_empty h head;
        if e then Some h
        else do { first \<leftarrow> get_next h head; q_swap_loop head first h } })"

partial_function (option) q_reverse_loop :: "ptr \<Rightarrow> ptr \<Rightarrow> ptr \<Rightarrow> ptr \<Rightarrow> heap \<Rightarrow> heap option" where
  "q_reverse_loop head pre cur nex h =
     (if nex \<noteq> head then do {
        nex' \<leftarrow> get_next h cur;
        h1 \<leftarrow> set_next cur pre h;
        h2 \<leftarrow> set_prev cur nex' h1;
        q_reverse_loop head cur nex' nex' h2 }
      else Some h)"

definition q_reverse :: "ptr \<Rightarrow> heap \<Rightarrow> heap option" where
  "q_reverse head h =
     (if head = 0 then Some h
      else do {
        e \<leftarrow> list_empty h head;
        if e then Some h
        else do { pre \<leftarrow> get_prev h head; q_reverse_loop head pre head 0 h } })"

text \<open>
  \<^verbatim>\<open>mergeTwo\<close>: \<open>cur\<close> points either to the local dummy \<^verbatim>\<open>struct list_head head\<close>
  (\<open>None\<close>) or to a node; \<open>hn\<close> is the \<^verbatim>\<open>next\<close> field of that dummy.
\<close>

definition cur_set_next :: "ptr option \<Rightarrow> ptr \<Rightarrow> ptr \<times> heap \<Rightarrow> (ptr \<times> heap) option" where
  "cur_set_next cur v s =
     (case cur of
        None \<Rightarrow> Some (v, snd s)
      | Some p \<Rightarrow> do { h' \<leftarrow> set_next p v (snd s); Some (fst s, h') })"

definition cur_get_next :: "ptr option \<Rightarrow> ptr \<times> heap \<Rightarrow> ptr option" where
  "cur_get_next cur s = (case cur of None \<Rightarrow> Some (fst s) | Some p \<Rightarrow> get_next (snd s) p)"

partial_function (option) mergeTwo_loop ::
  "ptr \<Rightarrow> ptr \<Rightarrow> ptr option \<Rightarrow> ptr \<times> heap \<Rightarrow> (ptr \<times> ptr \<times> ptr option \<times> ptr \<times> heap) option" where
  "mergeTwo_loop left right cur s =
     (if left \<noteq> 0 \<and> right \<noteq> 0 then do {
        lv \<leftarrow> get_value (snd s) left;
        rv \<leftarrow> get_value (snd s) right;
        if strcmp lv rv < 0 then do {
          s1 \<leftarrow> cur_set_next cur left s;
          left' \<leftarrow> get_next (snd s1) left;
          c \<leftarrow> cur_get_next cur s1;
          mergeTwo_loop left' right (Some c) s1 }
        else do {
          s1 \<leftarrow> cur_set_next cur right s;
          right' \<leftarrow> get_next (snd s1) right;
          c \<leftarrow> cur_get_next cur s1;
          mergeTwo_loop left right' (Some c) s1 } }
      else Some (left, right, cur, s))"

definition mergeTwo :: "ptr \<Rightarrow> ptr \<Rightarrow> heap \<Rightarrow> (ptr \<times> heap) option" where
  "mergeTwo left right h =
     (if left = 0 \<and> right = 0 then Some (0, h)
      else do {
        (left', right', cur, s) \<leftarrow> mergeTwo_loop left right None (0, h);
        s' \<leftarrow> (if left' \<noteq> 0 then cur_set_next cur left' s
               else if right' \<noteq> 0 then cur_set_next cur right' s
               else Some s);
        Some s' })"

partial_function (option) q_mergeSort_split :: "ptr \<Rightarrow> ptr \<Rightarrow> heap \<Rightarrow> ptr option" where
  "q_mergeSort_split slow fast h =
     (if fast \<noteq> 0 then do {
        fn \<leftarrow> get_next h fast;
        if fn \<noteq> 0 then do {
          slow' \<leftarrow> get_next h slow;
          fast' \<leftarrow> get_next h fn;
          q_mergeSort_split slow' fast' h }
        else Some slow }
      else Some slow)"

partial_function (option) q_mergeSort :: "ptr \<Rightarrow> heap \<Rightarrow> (ptr \<times> heap) option" where
  "q_mergeSort head h = do {
     hn \<leftarrow> get_next h head;
     if hn = 0 then Some (head, h)
     else do {
       slow \<leftarrow> q_mergeSort_split head hn h;
       mid \<leftarrow> get_next h slow;
       h1 \<leftarrow> set_next slow 0 h;
       (left, h2) \<leftarrow> q_mergeSort head h1;
       (right, h3) \<leftarrow> q_mergeSort mid h2;
       mergeTwo left right h3 } }"

text \<open>The loop of \<^verbatim>\<open>q_sort\<close> that rebuilds the \<^verbatim>\<open>prev\<close> links along the sorted chain.\<close>

partial_function (option) q_sort_relink :: "ptr \<Rightarrow> ptr \<Rightarrow> heap \<Rightarrow> (ptr \<times> heap) option" where
  "q_sort_relink cur nex h =
     (if nex \<noteq> 0 then do {
        h1 \<leftarrow> set_prev nex cur h;
        nex' \<leftarrow> get_next h1 nex;
        q_sort_relink nex nex' h1 }
      else Some (cur, h))"

text \<open>\<^verbatim>\<open>q_sort(head, descend)\<close>: the body never reads \<open>descend\<close>.\<close>

definition q_sort :: "ptr \<Rightarrow> bool \<Rightarrow> heap \<Rightarrow> heap option" where
  "q_sort head descend h =
     (if head = 0 then Some h
      else do {
        e \<leftarrow> list_empty h head;
        if e then Some h
        else do {
          last \<leftarrow> get_prev h head;
          h1 \<leftarrow> set_next last 0 h;
          first \<leftarrow> get_next h1 head;
          (sorted, h2) \<leftarrow> q_mergeSort first h1;
          h3 \<leftarrow> set_next head sorted h2;
          nex \<leftarrow> get_next h3 head;
          (cur, h4) \<leftarrow> q_sort_relink head nex h3;
          h5 \<leftarrow> set_next cur head h4;
          set_prev head cur h5 } })"

partial_function (option) q_ascend_loop :: "ptr \<Rightarrow> ptr \<Rightarrow> heap \<Rightarrow> heap option" where
  "q_ascend_loop head node h = do {
     np \<leftarrow> get_prev h node;
     if np \<noteq> head then do {
       cv \<leftarrow> get_value h node;
       pv \<leftarrow> get_value h np;
       if strcmp cv pv < 0 then do {
         np' \<leftarrow> get_prev h node;
         h1 \<leftarrow> list_del np' h;
         h2 \<leftarrow> q_release_element np h1;
         q_ascend_loop head node h2 }
       else do {
         node' \<leftarrow> get_prev h node;
         q_ascend_loop head node' h } }
     else Some h }"

definition q_ascend :: "ptr \<Rightarrow> heap \<Rightarrow> (int \<times> heap) option" where
  "q_ascend head h =
     (if head = 0 then Some (0, h)
      else do {
        e \<leftarrow> list_empty h head;
        if e then Some (0, h)
        else do {
          node \<leftarrow> get_prev h head;
          h' \<leftarrow> q_ascend_loop head node h;
          Some (0, h') } })"

partial_function (option) q_descend_loop :: "ptr \<Rightarrow> ptr \<Rightarrow> heap \<Rightarrow> heap option" where
  "q_descend_loop head node h = do {
     np \<leftarrow> get_prev h node;
     if np \<noteq> head then do {
       cv \<leftarrow> get_value h node;
       pv \<leftarrow> get_value h np;
       if strcmp cv pv > 0 then do {
         np' \<leftarrow> get_prev h node;
         h1 \<leftarrow> list_del np' h;
         h2 \<leftarrow> q_release_element np h1;
         q_descend_loop head node h2 }
       else do {
         node' \<leftarrow> get_prev h node;
         q_descend_loop head node' h } }
     else Some h }"

definition q_descend :: "ptr \<Rightarrow> heap \<Rightarrow> (int \<times> heap) option" where
  "q_descend head h =
     (if head = 0 then Some (0, h)
      else do {
        e \<leftarrow> list_empty h head;
        if e then Some (0, h)
        else do {
          node \<leftarrow> get_prev h head;
          h' \<leftarrow> q_descend_loop head node h;
          Some (0, h') } })"

section \<open>Well-formed rings\<close>

text \<open>
  \<open>seg f p xs q\<close>: following the link \<open>f\<close> from \<open>p\<close> visits exactly the nodes \<open>xs\<close>,
  \<open>p\<close> first, and then arrives at \<open>q\<close>.
\<close>

primrec seg :: "(ptr \<Rightarrow> ptr) \<Rightarrow> ptr \<Rightarrow> ptr list \<Rightarrow> ptr \<Rightarrow> bool" where
  "seg f p [] q \<longleftrightarrow> p = q"
| "seg f p (x # xs) q \<longleftrightarrow> p = x \<and> seg f (f x) xs q"

text \<open>
  \<open>ring h head xs\<close>: in heap \<open>h\<close> the sentinel \<open>head\<close> anchors a circular doubly-linked
  list whose elements, read head-to-tail, are the nodes \<open>xs\<close>: the \<^verbatim>\<open>next\<close> links run
  through \<open>xs\<close> and back to the sentinel, the \<^verbatim>\<open>prev\<close> links run through \<open>xs\<close>
  backwards, all nodes are live, non-null and different, and every element has a string.
\<close>

definition ring :: "heap \<Rightarrow> ptr \<Rightarrow> ptr list \<Rightarrow> bool" where
  "ring h head xs \<longleftrightarrow>
     seg (nxt h) head (head # xs) head \<and> seg (prv h) head (head # rev xs) head \<and>
     distinct (head # xs) \<and> (\<forall>n \<in> set (head # xs). valid h n) \<and>
     (\<forall>n \<in> set xs. val h n \<noteq> None)"

text \<open>The strings of a list of element nodes.\<close>

definition strings_of :: "heap \<Rightarrow> ptr list \<Rightarrow> string list" where
  "strings_of h xs = map (\<lambda>p. the (val h p)) xs"

text \<open>
  A queue holding the strings \<open>vs\<close> in order: the sentinel at address \<open>1\<close>, the
  element with the \<open>i\<close>-th string at address \<open>i + 2\<close>.
\<close>

definition queue_of :: "string list \<Rightarrow> heap" where
  "queue_of vs =
     \<lparr>nxt = (\<lambda>p. if p = 0 \<or> Suc (length vs) < p then 0
                else if p = Suc (length vs) then 1 else Suc p),
      prv = (\<lambda>p. if p = 0 \<or> Suc (length vs) < p then 0
                else if p = 1 then Suc (length vs) else p - 1),
      val = (\<lambda>p. if 2 \<le> p \<and> p \<le> Suc (length vs) then Some (vs ! (p - 2)) else None),
      alloc = {1..Suc (length vs)}\<rparr>"

text \<open>
  The backward scan of \<^verbatim>\<open>q_ascend\<close> and \<^verbatim>\<open>q_descend\<close> on the list of nodes: \<open>acc\<close>
  is the part already scanned, whose first node is the current \<^verbatim>\<open>node\<close>; its
  predecessor \<open>p\<close> is deleted when the test \<open>rm\<close> holds of the two strings.
\<close>

definition keep_step :: "(string \<Rightarrow> string \<Rightarrow> bool) \<Rightarrow> (ptr \<Rightarrow> string) \<Rightarrow> ptr \<Rightarrow> ptr list \<Rightarrow> ptr list" where
  "keep_step rm v p acc = (case acc of [] \<Rightarrow> [p] | node # _ \<Rightarrow> if rm (v node) (v p) then acc else p # acc)"

definition keep_scan :: "(string \<Rightarrow> string \<Rightarrow> bool) \<Rightarrow> (ptr \<Rightarrow> string) \<Rightarrow> ptr list \<Rightarrow> ptr list \<Rightarrow> ptr list" where
  "keep_scan rm v xs acc = foldr (keep_step rm v) xs acc"

text \<open>
  The forward pass of \<^verbatim>\<open>q_delete_dup\<close> on the list of nodes from \<^verbatim>\<open>curr_ele\<close> on:
  a node is deleted when its successor has the same string, or when the flag says that
  its predecessor had.
\<close>

fun dedup_scan :: "(ptr \<Rightarrow> string) \<Rightarrow> bool \<Rightarrow> ptr list \<Rightarrow> ptr list" where
  "dedup_scan v is_dup [] = []"
| "dedup_scan v is_dup (c # rest) =
     (if rest \<noteq> [] \<and> strcmp (v c) (v (hd rest)) = 0 then dedup_scan v True rest
      else if is_dup then dedup_scan v False rest
      else c # dedup_scan v False rest)"

text \<open>Equal strings stand next to each other, as they do in a sorted list.\<close>

fun grouped :: "(ptr \<Rightarrow> string) \<Rightarrow> ptr list \<Rightarrow> bool" where
  "grouped v [] = True"
| "grouped v [c] = True"
| "grouped v (c # r # rs) = ((v c \<noteq> v r \<longrightarrow> v c \<notin> v ` set rs) \<and> grouped v (r # rs))"

text \<open>
  The merge of \<^verbatim>\<open>mergeTwo\<close> on the lists of nodes of its two chains: the head of the
  left chain is taken when its string is strictly smaller, otherwise the head of the
  right chain.
\<close>

fun merge_nodes :: "(ptr \<Rightarrow> string) \<Rightarrow> ptr list \<Rightarrow> ptr list \<Rightarrow> ptr list" where
  "merge_nodes v [] r = r"
| "merge_nodes v l [] = l"
| "merge_nodes v (a # l) (b # r) =
     (if strcmp (v a) (v b) < 0 then a # merge_nodes v l (b # r)
      else b # merge_nodes v (a # l) r)"

text \<open>The last step of \<^verbatim>\<open>mergeTwo\<close>: append what is left of one chain.\<close>

definition mergeTwo_finish :: "ptr \<times> ptr \<times> ptr option \<times> ptr \<times> heap \<Rightarrow> (ptr \<times> heap) option" where
  "mergeTwo_finish st =
     (case st of (left', right', cur, s) \<Rightarrow>
        if left' \<noteq> 0 then cur_set_next cur left' s
        else if right' \<noteq> 0 then cur_set_next cur right' s
        else Some s)"

text \<open>
  The chain built so far by a merge: \<open>acc\<close> are the nodes already appended, linked from
  the dummy's \<open>hn\<close> up to the last one, to which \<open>cur\<close> points.
\<close>

definition built :: "(ptr \<Rightarrow> ptr) \<Rightarrow> ptr \<Rightarrow> ptr option \<Rightarrow> ptr list \<Rightarrow> bool" where
  "built f hn cur acc \<longleftrightarrow>
     (case cur of None \<Rightarrow> acc = []
      | Some c \<Rightarrow> acc \<noteq> [] \<and> c = last acc \<and> seg f hn (butlast acc) c)"

text \<open>
  The recursion of \<^verbatim>\<open>q_mergeSort\<close> on the list of nodes of its chain: the chain is cut
  behind the node at which the slow pointer stops.
\<close>

function msort_nodes :: "(ptr \<Rightarrow> string) \<Rightarrow> ptr list \<Rightarrow> ptr list" where
  "msort_nodes v xs =
     (if length xs \<le> 1 then xs
      else merge_nodes v (msort_nodes v (take (Suc ((length xs - 1) div 2)) xs))
                         (msort_nodes v (drop (Suc ((length xs - 1) div 2)) xs)))"
  by pat_completeness auto
termination
  by (relation "measure (\<lambda>(v, xs). length xs)") auto

declare msort_nodes.simps [simp del]

text \<open>
  What \<^verbatim>\<open>q_reverse\<close> does to the heap: the two links of every node of \<open>S\<close> are
  exchanged.
\<close>

definition swap_links :: "heap \<Rightarrow> ptr set \<Rightarrow> heap" where
  "swap_links h S =
     h\<lparr>nxt := (\<lambda>n. if n \<in> S then prv h n else nxt h n),
       prv := (\<lambda>n. if n \<in> S then nxt h n else prv h n)\<rparr>"

declare q_mergeSort.simps [code] q_mergeSort_split.simps [code] mergeTwo_loop.simps [code]
  q_sort_relink.simps [code]

section \<open>The natural merge sort of \<^verbatim>\<open>list_sort.c\<close>\<close>

text \<open>
  The comparison function is a parameter; \<open>priv\<close> is passed through to it unread and is
  part of the closure \<open>cmp\<close>.  Only the sign of its \<^verbatim>\<open>int\<close> result is used.  It reads
  the two elements it is given, so a call on a dead or null node is a fault.
\<close>

definition call_cmp :: "(ptr \<Rightarrow> ptr \<Rightarrow> int) \<Rightarrow> heap \<Rightarrow> ptr \<Rightarrow> ptr \<Rightarrow> int option" where
  "call_cmp cmp h a b = (if valid h a \<and> valid h b then Some (cmp a b) else None)"

text \<open>
  \<^verbatim>\<open>merge\<close>: \<open>tail\<close> is a pointer to a \<^verbatim>\<open>next\<close> field, that of a node (\<open>Some p\<close>) or the
  local variable \<^verbatim>\<open>head\<close> (\<open>None\<close>), which is the first component of the state.
\<close>

definition store_tail :: "ptr option \<Rightarrow> ptr \<Rightarrow> ptr \<times> heap \<Rightarrow> (ptr \<times> heap) option" where
  "store_tail tail v s =
     (case tail of
        None \<Rightarrow> Some (v, snd s)
      | Some p \<Rightarrow> do { h' \<leftarrow> set_next p v (snd s); Some (fst s, h') })"

partial_function (option) merge_loop ::
  "(ptr \<Rightarrow> ptr \<Rightarrow> int) \<Rightarrow> ptr \<Rightarrow> ptr \<Rightarrow> ptr option \<Rightarrow> ptr \<times> heap \<Rightarrow> (ptr \<times> heap) option" where
  "merge_loop cmp a b tail s = do {
     c \<leftarrow> call_cmp cmp (snd s) a b;
     if c \<le> 0 then do {
       s1 \<leftarrow> store_tail tail a s;
       a' \<leftarrow> get_next (snd s1) a;
       if a' = 0 then store_tail (Some a) b s1
       else merge_loop cmp a' b (Some a) s1 }
     else do {
       s1 \<leftarrow> store_tail tail b s;
       b' \<leftarrow> get_next (snd s1) b;
       if b' = 0 then store_tail (Some b) a s1
       else merge_loop cmp a b' (Some b) s1 } }"

definition merge :: "(ptr \<Rightarrow> ptr \<Rightarrow> int) \<Rightarrow> ptr \<Rightarrow> ptr \<Rightarrow> heap \<Rightarrow> (ptr \<times> heap) option" where
  "merge cmp a b h = merge_loop cmp a b None (0, h)"

text \<open>\<^verbatim>\<open>merge_final\<close>: the merge that restores the \<^verbatim>\<open>prev\<close> links; it returns at the
  \<^verbatim>\<open>break\<close> with the remaining chain \<open>b\<close> and the last node linked.\<close>

partial_function (option) merge_final_loop ::
  "(ptr \<Rightarrow> ptr \<Rightarrow> int) \<Rightarrow> ptr \<Rightarrow> ptr \<Rightarrow> ptr \<Rightarrow> heap \<Rightarrow> (ptr \<times> ptr \<times> heap) option" where
  "merge_final_loop cmp a b tail h = do {
     c \<leftarrow> call_cmp cmp h a b;
     if c \<le> 0 then do {
       h1 \<leftarrow> set_next tail a h;
       h2 \<leftarrow> set_prev a tail h1;
       a' \<leftarrow> get_next h2 a;
       if a' = 0 then Some (b, a, h2)
       else merge_final_loop cmp a' b a h2 }
     else do {
       h1 \<leftarrow> set_next tail b h;
       h2 \<leftarrow> set_prev b tail h1;
       b' \<leftarrow> get_next h2 b;
       if b' = 0 then Some (a, b, h2)
       else merge_final_loop cmp a b' b h2 } }"

text \<open>
  The \<^verbatim>\<open>do ... while (b)\<close> of \<^verbatim>\<open>merge_final\<close>; \<open>cnt\<close> is its \<^verbatim>\<open>uint8_t count\<close>, and every
  256th round calls \<open>cmp\<close> on \<open>b\<close> and itself and drops the result.
\<close>

partial_function (option) merge_final_rest ::
  "(ptr \<Rightarrow> ptr \<Rightarrow> int) \<Rightarrow> 8 word \<Rightarrow> ptr \<Rightarrow> ptr \<Rightarrow> heap \<Rightarrow> (ptr \<times> heap) option" where
  "merge_final_rest cmp cnt b tail h = do {
     _ \<leftarrow> (if cnt + 1 = 0 then call_cmp cmp h b b else Some 0);
     h1 \<leftarrow> set_prev b tail h;
     b' \<leftarrow> get_next h1 b;
     if b' \<noteq> 0 then merge_final_rest cmp (cnt + 1) b' b h1
     else Some (b, h1) }"

definition merge_final :: "(ptr \<Rightarrow> ptr \<Rightarrow> int) \<Rightarrow> ptr \<Rightarrow> ptr \<Rightarrow> ptr \<Rightarrow> heap \<Rightarrow> heap option" where
  "merge_final cmp head a b h = do {
     (b', tail, h1) \<leftarrow> merge_final_loop cmp a b head h;
     h2 \<leftarrow> set_next tail b' h1;
     (tail', h3) \<leftarrow> merge_final_rest cmp 0 b' tail h2;
     h4 \<leftarrow> set_next tail' head h3;
     set_prev head tail' h4 }"

text \<open>
  \<^verbatim>\<open>list_sort\<close>.  In the main loop \<open>tail\<close> is a pointer to a \<^verbatim>\<open>prev\<close> field, that of a
  node (\<open>Some p\<close>) or the local variable \<^verbatim>\<open>pending\<close> (\<open>None\<close>).  \<open>cnt\<close> is the
  \<^verbatim>\<open>size_t count\<close>, of 64 bits.
\<close>

definition load_slot :: "ptr option \<Rightarrow> ptr \<times> heap \<Rightarrow> ptr option" where
  "load_slot tail s = (case tail of None \<Rightarrow> Some (fst s) | Some p \<Rightarrow> get_prev (snd s) p)"

definition store_slot :: "ptr option \<Rightarrow> ptr \<Rightarrow> ptr \<times> heap \<Rightarrow> (ptr \<times> heap) option" where
  "store_slot tail v s =
     (case tail of
        None \<Rightarrow> Some (v, snd s)
      | Some p \<Rightarrow> do { h' \<leftarrow> set_prev p v (snd s); Some (fst s, h') })"

text \<open>\<^verbatim>\<open>for (bits = count; bits & 1; bits >>= 1) tail = &(*tail)->prev;\<close>\<close>

partial_function (option) list_sort_bits ::
  "nat \<Rightarrow> ptr option \<Rightarrow> ptr \<times> heap \<Rightarrow> (nat \<times> ptr option) option" where
  "list_sort_bits bits tail s =
     (if bits mod 2 = 1 then do {
        p \<leftarrow> load_slot tail s;
        list_sort_bits (bits div 2) (Some p) s }
      else Some (bits, tail))"

text \<open>One round of the main loop, on the state \<open>(list, pending, count, heap)\<close>.\<close>

definition list_sort_round ::
  "(ptr \<Rightarrow> ptr \<Rightarrow> int) \<Rightarrow> ptr \<times> ptr \<times> nat \<times> heap \<Rightarrow> (ptr \<times> ptr \<times> nat \<times> heap) option" where
  "list_sort_round cmp st =
     (case st of (list, pending, cnt, h) \<Rightarrow> do {
        (bits, tail) \<leftarrow> list_sort_bits cnt None (pending, h);
        (pending1, h1) \<leftarrow>
          (if bits \<noteq> 0 then do {
             a \<leftarrow> load_slot tail (pending, h);
             b \<leftarrow> get_prev h a;
             (a', h') \<leftarrow> merge cmp b a h;
             bp \<leftarrow> get_prev h' b;
             h'' \<leftarrow> set_prev a' bp h';
             store_slot tail a' (pending, h'') }
           else Some (pending, h));
        h2 \<leftarrow> set_prev list pending1 h1;
        list' \<leftarrow> get_next h2 list;
        h3 \<leftarrow> set_next list 0 h2;
        Some (list', list, (cnt + 1) mod 2 ^ 64, h3) })"

partial_function (option) list_sort_loop ::
  "(ptr \<Rightarrow> ptr \<Rightarrow> int) \<Rightarrow> ptr \<times> ptr \<times> nat \<times> heap \<Rightarrow> (ptr \<times> ptr \<times> nat \<times> heap) option" where
  "list_sort_loop cmp st = do {
     st' \<leftarrow> list_sort_round cmp st;
     if fst st' \<noteq> 0 then list_sort_loop cmp st' else Some st' }"

text \<open>The loop that merges all the pending runs but the last.\<close>

partial_function (option) list_sort_final ::
  "(ptr \<Rightarrow> ptr \<Rightarrow> int) \<Rightarrow> ptr \<Rightarrow> ptr \<Rightarrow> heap \<Rightarrow> (ptr \<times> ptr \<times> heap) option" where
  "list_sort_final cmp list pending h = do {
     next \<leftarrow> get_prev h pending;
     if next = 0 then Some (list, pending, h)
     else do {
       (list', h') \<leftarrow> merge cmp pending list h;
       list_sort_final cmp list' next h' } }"

definition list_sort :: "(ptr \<Rightarrow> ptr \<Rightarrow> int) \<Rightarrow> ptr \<Rightarrow> heap \<Rightarrow> heap option" where
  "list_sort cmp head h = do {
     list \<leftarrow> get_next h head;
     lastp \<leftarrow> get_prev h head;
     if list = lastp then Some h
     else do {
       h1 \<leftarrow> set_next lastp 0 h;
       (list', pending, cnt, h2) \<leftarrow> list_sort_loop cmp (list, 0, 0, h1);
       pending' \<leftarrow> get_prev h2 pending;
       (list'', pending'', h3) \<leftarrow> list_sort_final cmp pending pending' h2;
       merge_final cmp head pending'' list'' h3 } }"

text \<open>The state after \<open>k\<close> rounds of the main loop.\<close>

primrec list_sort_rounds ::
  "(ptr \<Rightarrow> ptr \<Rightarrow> int) \<Rightarrow> nat \<Rightarrow> ptr \<times> ptr \<times> nat \<times> heap \<Rightarrow> (ptr \<times> ptr \<times> nat \<times> heap) option" where
  "list_sort_rounds cmp 0 st = Some st"
| "list_sort_rounds cmp (Suc k) st = list_sort_round cmp st \<bind> list_sort_rounds cmp k"

declare merge_loop.simps [code] merge_final_loop.simps [code] merge_final_rest.simps [code]
  list_sort_bits.simps [code] list_sort_loop.simps [code] list_sort_final.simps [code]

text \<open>The merge of \<^verbatim>\<open>merge\<close> and \<^verbatim>\<open>merge_final\<close> on the lists of nodes of two chains.\<close>

fun merge_runs :: "(ptr \<Rightarrow> ptr \<Rightarrow> int) \<Rightarrow> ptr list \<Rightarrow> ptr list \<Rightarrow> ptr list" where
  "merge_runs cmp [] bs = bs"
| "merge_runs cmp as [] = as"
| "merge_runs cmp (a # as) (b # bs) =
     (if cmp a b \<le> 0 then a # merge_runs cmp as (b # bs) else b # merge_runs cmp (a # as) bs)"

text \<open>
  The pending stack as the list of its runs, the front run first.  One round walks past
  one run for every trailing one bit of \<open>bits\<close> and then, unless \<open>bits\<close> has become
  zero, merges the next two runs, the older one on the left.
\<close>

fun merge_at :: "(ptr \<Rightarrow> ptr \<Rightarrow> int) \<Rightarrow> nat \<Rightarrow> ptr list list \<Rightarrow> ptr list list" where
  "merge_at cmp bits [] = []"
| "merge_at cmp bits (r # rs) =
     (if bits mod 2 = 1 then r # merge_at cmp (bits div 2) rs
      else if bits = 0 then r # rs
      else (case rs of [] \<Rightarrow> [r] | b # rs' \<Rightarrow> merge_runs cmp b r # rs'))"

text \<open>The runs on the pending stack after the main loop has taken the elements \<open>xs\<close>.\<close>

definition pending_runs :: "(ptr \<Rightarrow> ptr \<Rightarrow> int) \<Rightarrow> ptr list \<Rightarrow> ptr list list" where
  "pending_runs cmp xs = foldl (\<lambda>rs x. [x] # merge_at cmp (length (concat rs)) rs) [] xs"

text \<open>The final merges: the runs are merged into the front one, oldest last.\<close>

fun merge_all :: "(ptr \<Rightarrow> ptr \<Rightarrow> int) \<Rightarrow> ptr list \<Rightarrow> ptr list list \<Rightarrow> ptr list" where
  "merge_all cmp acc [] = acc"
| "merge_all cmp acc (r # rs) = merge_all cmp (merge_runs cmp r acc) rs"

definition sort_nodes :: "(ptr \<Rightarrow> ptr \<Rightarrow> int) \<Rightarrow> ptr list \<Rightarrow> ptr list" where
  "sort_nodes cmp xs = (case pending_runs cmp xs of [] \<Rightarrow> [] | r # rs \<Rightarrow> merge_all cmp r rs)"

text \<open>The sizes of the pending runs when \<open>n\<close> elements have been taken.\<close>

function pending_sizes :: "nat \<Rightarrow> nat list" where
  "pending_sizes n =
     (if n = 0 then []
      else if n mod 2 = 1 then 1 # map ((*) 2) (pending_sizes (n div 2))
      else 1 # 1 # map ((*) 2) (tl (pending_sizes (n div 2))))"
  by pat_completeness auto
termination
  by (relation "measure id") auto

declare pending_sizes.simps [simp del]

text \<open>What one round does to the sizes.\<close>

fun combine :: "nat \<Rightarrow> nat list \<Rightarrow> nat list" where
  "combine bits [] = []"
| "combine bits (s # ss) =
     (if bits mod 2 = 1 then s # combine (bits div 2) ss
      else if bits = 0 then s # ss
      else (case ss of [] \<Rightarrow> [s] | t # ss' \<Rightarrow> (t + s) # ss'))"

text \<open>The slots that a round reads exist.\<close>

fun slots_ok :: "nat \<Rightarrow> nat \<Rightarrow> bool" where
  "slots_ok bits 0 = (bits = 0)"
| "slots_ok bits (Suc len) =
     (if bits mod 2 = 1 then slots_ok (bits div 2) len else bits = 0 \<or> 1 \<le> len)"

text \<open>
  \<open>pstack h p rs\<close>: \<open>p\<close> points to a stack of the runs \<open>rs\<close>, each a null-terminated
  chain of \<^verbatim>\<open>next\<close> links, the head of each run pointing to the next run by its
  \<^verbatim>\<open>prev\<close> link.
\<close>

primrec pstack :: "heap \<Rightarrow> ptr \<Rightarrow> ptr list list \<Rightarrow> bool" where
  "pstack h p [] \<longleftrightarrow> p = 0"
| "pstack h p (r # rs) \<longleftrightarrow> r \<noteq> [] \<and> 0 \<notin> set r \<and> seg (nxt h) p r 0 \<and> pstack h (prv h p) rs"

text \<open>The merge step of a round, after the walk along the stack.\<close>

definition round_merge ::
  "(ptr \<Rightarrow> ptr \<Rightarrow> int) \<Rightarrow> nat \<times> ptr option \<Rightarrow> ptr \<times> heap \<Rightarrow> (ptr \<times> heap) option" where
  "round_merge cmp bt s =
     (case bt of (bits, tail) \<Rightarrow>
       (if bits \<noteq> 0 then do {
             a \<leftarrow> load_slot tail s;
             b \<leftarrow> get_prev (snd s) a;
             (a', h') \<leftarrow> merge cmp b a (snd s);
             bp \<leftarrow> get_prev h' b;
             h'' \<leftarrow> set_prev a' bp h';
             store_slot tail a' (fst s, h'') }
           else Some s))"

text \<open>
  The state \<open>(list, pending, count, heap)\<close> of the main loop when the elements \<open>taken\<close>
  have been moved to the pending stack and \<open>inp\<close> are still in the input chain.
\<close>

definition sort_state ::
  "(ptr \<Rightarrow> ptr \<Rightarrow> int) \<Rightarrow> ptr list \<Rightarrow> ptr list \<Rightarrow> ptr \<times> ptr \<times> nat \<times> heap \<Rightarrow> bool" where
  "sort_state cmp taken inp st \<longleftrightarrow>
     (case st of (list, pending, cnt, h) \<Rightarrow>
        cnt = length taken \<and> pstack h pending (pending_runs cmp taken) \<and>
        seg (nxt h) list inp 0 \<and> 0 \<notin> set (taken @ inp) \<and> distinct (taken @ inp) \<and>
        (\<forall>n \<in> set (taken @ inp). valid h n))"

text \<open>
  The doubly-linked prefix built by \<^verbatim>\<open>merge_final\<close>: the nodes \<open>D\<close> hang on the
  sentinel by both links, and \<open>tail\<close> is the last of them (the sentinel when there is
  none).
\<close>

definition dbuilt :: "heap \<Rightarrow> ptr \<Rightarrow> ptr \<Rightarrow> ptr list \<Rightarrow> bool" where
  "dbuilt h head tail D \<longleftrightarrow>
     tail = last (head # D) \<and> seg (nxt h) head (butlast (head # D)) tail \<and>
     seg (prv h) tail (rev D) head"

text \<open>
  The contract of the comparison function on the nodes \<open>S\<close>: \<open>cmp a b \<le> 0\<close> means that \<open>a\<close>
  sorts no later than \<open>b\<close>, \<open>0 < cmp a b\<close> that \<open>a\<close> sorts strictly after \<open>b\<close>; so of
  any two nodes one sorts no later than the other, and "no later than" is transitive.
\<close>

definition cmp_contract :: "(ptr \<Rightarrow> ptr \<Rightarrow> int) \<Rightarrow> ptr set \<Rightarrow> bool" where
  "cmp_contract cmp S \<longleftrightarrow>
     (\<forall>a \<in> S. \<forall>b \<in> S. 0 < cmp a b \<longrightarrow> cmp b a \<le> 0) \<and>
     (\<forall>a \<in> S. \<forall>b \<in> S. \<forall>c \<in> S. cmp a b \<le> 0 \<longrightarrow> cmp b c \<le> 0 \<longrightarrow> cmp a c \<le> 0)"

text \<open>Two nodes compare equal when each sorts no later than the other.\<close>

definition cmp_equal :: "(ptr \<Rightarrow> ptr \<Rightarrow> int) \<Rightarrow> ptr \<Rightarrow> ptr \<Rightarrow> bool" where
  "cmp_equal cmp x y \<longleftrightarrow> cmp x y \<le> 0 \<and> cmp y x \<le> 0"

text \<open>
  The runs of a stack, the oldest first, partition the input taken so far: each is
  sorted and their concatenation keeps equal elements in input order.
\<close>

definition stable_runs :: "(ptr \<Rightarrow> ptr \<Rightarrow> int) \<Rightarrow> ptr set \<Rightarrow> ptr list \<Rightarrow> ptr list list \<Rightarrow> bool" where
  "stable_runs cmp S xs rs \<longleftrightarrow>
     (\<forall>r \<in> set rs. sorted_wrt (\<lambda>a b. cmp a b \<le> 0) r \<and> set r \<subseteq> S) \<and>
     (\<forall>x \<in> S. filter (cmp_equal cmp x) (concat (rev rs)) = filter (cmp_equal cmp x) xs)"

text \<open>
  The sizes in the words of the specification, "the run sizes correspond to the set bits
  of the element counter": one run of size \<open>2 ^ j\<close> for every bit \<open>j\<close> that is set in
  \<open>n\<close>, the smallest first.  This definition follows the specification, not the code.
\<close>

fun spec_set_bit_sizes :: "nat \<Rightarrow> nat list" where
  "spec_set_bit_sizes n =
     (if n = 0 then []
      else (if n mod 2 = 1 then [1] else []) @ map ((*) 2) (spec_set_bit_sizes (n div 2)))"

declare spec_set_bit_sizes.simps [simp del]

text \<open>
  The runs of a stack, read from the oldest to the newest, are made of consecutive
  segments \<open>segs\<close> of the input \<open>xs\<close>.
\<close>

definition segmented :: "ptr list \<Rightarrow> ptr list list \<Rightarrow> ptr list list \<Rightarrow> bool" where
  "segmented xs segs rs \<longleftrightarrow> concat segs = xs \<and> map mset segs = map mset (rev rs)"

section \<open>Basic facts about the heap and rings\<close>

lemma valid_upd [simp]:
  "valid (h\<lparr>nxt := f\<rparr>) p = valid h p"
  "valid (h\<lparr>prv := g\<rparr>) p = valid h p"
  by (simp_all add: valid_def)

lemma get_next_valid [simp]: "valid h p \<Longrightarrow> get_next h p = Some (nxt h p)"
  by (simp add: get_next_def)
lemma get_prev_valid [simp]: "valid h p \<Longrightarrow> get_prev h p = Some (prv h p)"
  by (simp add: get_prev_def)
lemma set_next_valid [simp]: "valid h p \<Longrightarrow> set_next p q h = Some (h\<lparr>nxt := (nxt h)(p := q)\<rparr>)"
  by (simp add: set_next_def)
lemma set_prev_valid [simp]: "valid h p \<Longrightarrow> set_prev p q h = Some (h\<lparr>prv := (prv h)(p := q)\<rparr>)"
  by (simp add: set_prev_def)
lemma get_value_valid [simp]: "valid h p \<Longrightarrow> get_value h p = val h p"
  by (simp add: get_value_def)

lemma seg_append: "seg f p (xs @ ys) q \<longleftrightarrow> (\<exists>r. seg f p xs r \<and> seg f r ys q)"
  by (induction xs arbitrary: p) auto

lemma seg_snoc: "seg f p (xs @ [a]) q \<longleftrightarrow> seg f p xs a \<and> f a = q"
  by (induction xs arbitrary: p) auto

lemma seg_mid: "seg f p (xs @ a # ys) q \<longleftrightarrow> seg f p xs a \<and> seg f (f a) ys q"
  by (induction xs arbitrary: p) auto

lemma seg_upd: "a \<notin> set xs \<Longrightarrow> seg (f(a := v)) p xs q = seg f p xs q"
  by (induction xs arbitrary: p) auto

text \<open>Successor and predecessor of a ring member.\<close>

lemma ring_next:
  assumes "ring h head (xs @ x # ys)"
  shows "nxt h x = hd (ys @ [head])"
  using assms by (cases ys) (auto simp: ring_def seg_mid)

lemma ring_prev:
  assumes "ring h head (xs @ x # ys)"
  shows "prv h x = last (head # xs)"
  using assms by (cases xs rule: rev_cases) (auto simp: ring_def seg_mid seg_snoc)

lemma ring_head_next: "ring h head xs \<Longrightarrow> nxt h head = hd (xs @ [head])"
  by (cases xs) (auto simp: ring_def)

lemma ring_head_prev: "ring h head xs \<Longrightarrow> prv h head = last (head # xs)"
  by (cases xs rule: rev_cases) (auto simp: ring_def  seg_snoc)

lemma ring_valid: "ring h head xs \<Longrightarrow> n \<in> set (head # xs) \<Longrightarrow> valid h n"
  by (auto simp: ring_def)

lemma ring_del:
  assumes "ring h head (xs @ x # ys)"
  shows "ring (h\<lparr>prv := (prv h)(hd (ys @ [head]) := last (head # xs)),
                 nxt := (nxt h)(last (head # xs) := hd (ys @ [head]))\<rparr>) head (xs @ ys)"
proof -
  let ?a = "last (head # xs)" and ?n = "hd (ys @ [head])"
  from assms have d: "distinct (head # xs @ x # ys)" and
    sn: "seg (nxt h) head (head # xs @ x # ys) head" and
    sp: "seg (prv h) head (head # rev ys @ x # rev xs) head"
    by (simp_all add: ring_def)
  have "seg ((nxt h)(?a := ?n)) head (head # xs @ ys) head"
  proof (cases xs rule: rev_cases)
    case Nil
    with sn d show ?thesis by (cases ys) (auto simp: seg_upd)
  next
    case (snoc zs a)
    with sn d show ?thesis
      by (cases ys) (auto simp: seg_mid seg_snoc seg_upd)
  qed
  moreover have "seg ((prv h)(?n := ?a)) head (head # rev ys @ rev xs) head"
  proof (cases ys)
    case Nil
    with sp d show ?thesis by (cases xs rule: rev_cases) (auto simp: seg_upd seg_mid)
  next
    case (Cons b bs)
    with sp d show ?thesis
      by (cases xs rule: rev_cases) (auto simp: seg_mid seg_snoc seg_upd)
  qed
  ultimately show ?thesis using assms
    by (auto simp: ring_def)
qed

lemma list_del_ring:
  assumes "ring h head (xs @ x # ys)"
  shows "list_del x h = Some (h\<lparr>prv := (prv h)(hd (ys @ [head]) := last (head # xs)),
                 nxt := (nxt h)(last (head # xs) := hd (ys @ [head]))\<rparr>)"
proof -
  have "valid h x" using assms by (simp add: ring_def)
  moreover have "valid h (hd (ys @ [head]))" using assms by (cases ys) (auto simp: ring_def)
  moreover have "valid h (last (head # xs))" using assms by (cases xs rule: rev_cases) (auto simp: ring_def)
  ultimately show ?thesis
    using ring_next[OF assms] ring_prev[OF assms] by (simp add: list_del_def)
qed

section \<open>Null queues and removal at the ends\<close>

text \<open>
  C8: every queue operation given a \<^verbatim>\<open>NULL\<close> head returns its absence value and
  leaves the heap (and the caller's buffer) as it was: \<^verbatim>\<open>q_insert_head\<close> and
  \<^verbatim>\<open>q_insert_tail\<close> return false, \<^verbatim>\<open>q_remove_head\<close> and \<^verbatim>\<open>q_remove_tail\<close> return
  \<^verbatim>\<open>NULL\<close>, \<^verbatim>\<open>q_size\<close> returns 0, and \<^verbatim>\<open>q_delete_mid\<close>, \<^verbatim>\<open>q_delete_dup\<close>,
  \<^verbatim>\<open>q_ascend\<close>, \<^verbatim>\<open>q_descend\<close>, \<^verbatim>\<open>q_swap\<close> and \<^verbatim>\<open>q_reverse\<close> change nothing.
\<close>

theorem null_head_is_noop:
  "q_insert_head 0 s newh dup_ok h = Some (False, h) \<and>
   q_insert_tail 0 s newt dup_ok h = Some (False, h) \<and>
   q_remove_head 0 sp bufsize h = Some (0, sp, h) \<and>
   q_remove_tail 0 sp bufsize h = Some (0, sp, h) \<and>
   q_size 0 h = Some 0 \<and>
   q_delete_mid 0 h = Some (False, h) \<and>
   q_delete_dup 0 h = Some (False, h) \<and>
   q_ascend 0 h = Some (0, h) \<and>
   q_descend 0 h = Some (0, h) \<and>
   q_swap 0 h = Some h \<and>
   q_reverse 0 h = Some h"
  by (simp add: q_insert_head_def q_insert_tail_def q_remove_head_def q_remove_tail_def
      q_size_def q_delete_mid_def q_delete_dup_def q_ascend_def q_descend_def q_swap_def
      q_reverse_def)

lemma copy_out_None: "copy_out h ele None bufsize = Some None"
  by (simp add: copy_out_def)

lemma copy_out_Some:
  assumes "valid h ele" "val h ele = Some v" "bufsize \<noteq> 0" "unat bufsize \<le> length buf"
  shows "copy_out h ele (Some buf) bufsize =
    Some (Some (take (unat bufsize - 1) v @ replicate (unat bufsize - 1 - length v) (CHR 0x00)
           @ CHR 0x00 # drop (unat bufsize) buf))"
proof -
  let ?n = "unat bufsize - 1"
  from assms(3) have n: "unat (bufsize - 1) = ?n" "0 < unat bufsize"
    by (simp_all add: unat_minus_one unat_gt_0)
  let ?pre = "take ?n v @ replicate (?n - length v) (CHR 0x00)"
  have len: "length ?pre = ?n" by simp
  have d: "drop ?n buf = buf ! ?n # drop (unat bufsize) buf"
    using n assms(4) by (metis Cons_nth_drop_Suc Suc_diff_1 Suc_le_lessD)
  have u: "(?pre @ drop ?n buf)[?n := CHR 0x00] = ?pre @ CHR 0x00 # drop (unat bufsize) buf"
    unfolding d using len by (metis append_Nil2 list_update_length append.assoc append_Cons)
  have nl: "?n < length buf" "?n \<le> length buf" using n assms(4) by simp_all
  have s1: "strncpy buf v ?n = Some (?pre @ drop ?n buf)"
    using nl by (simp add: strncpy_def)
  have "length (?pre @ drop ?n buf) = length buf"
    using nl by (simp only: length_append len length_drop) simp
  then have s2: "store_char (?pre @ drop ?n buf) ?n (CHR 0x00) =
      Some (?pre @ CHR 0x00 # drop (unat bufsize) buf)"
    using nl u by (simp only: store_char_def) simp
  show ?thesis
    using assms(1,2) s1 s2 by (simp add: copy_out_def n(1))
qed


lemma ring_nonempty_not_empty:
  assumes "ring h head xs" "xs \<noteq> []"
  shows "list_empty h head = Some False"
  using assms by (cases xs) (auto simp: list_empty_def ring_def)

lemma ring_empty_empty:
  assumes "ring h head []"
  shows "list_empty h head = Some True"
  using assms by (auto simp: list_empty_def ring_def)

text \<open>
  C10: on a non-empty queue \<^verbatim>\<open>q_remove_head\<close> (\<^verbatim>\<open>q_remove_tail\<close>) returns the first
  (last) element, still live and with its string, and leaves the ring of the other
  elements.  With a buffer of at least \<open>bufsize \<ge> 1\<close> bytes it copies the first
  \<open>bufsize - 1\<close> characters of the value (padded with NUL) and stores NUL at index
  \<open>bufsize - 1\<close>; with a \<^verbatim>\<open>NULL\<close> buffer nothing is written and the element is
  removed and returned all the same.
\<close>

theorem q_remove_spec:
  assumes "ring h head xs" "xs \<noteq> []"
  shows "(\<exists>h'. ring h' head (tl xs) \<and> alloc h' = alloc h \<and> val h' = val h \<and>
            (\<forall>bufsize. q_remove_head head None bufsize h = Some (hd xs, None, h')) \<and>
            (\<forall>buf bufsize. bufsize \<noteq> 0 \<longrightarrow> unat bufsize \<le> length buf \<longrightarrow>
               q_remove_head head (Some buf) bufsize h =
                 Some (hd xs,
                       Some (take (unat bufsize - 1) (the (val h (hd xs))) @
                             replicate (unat bufsize - 1 - length (the (val h (hd xs)))) (CHR 0x00) @
                             CHR 0x00 # drop (unat bufsize) buf),
                       h'))) \<and>
         (\<exists>h'. ring h' head (butlast xs) \<and> alloc h' = alloc h \<and> val h' = val h \<and>
            (\<forall>bufsize. q_remove_tail head None bufsize h = Some (last xs, None, h')) \<and>
            (\<forall>buf bufsize. bufsize \<noteq> 0 \<longrightarrow> unat bufsize \<le> length buf \<longrightarrow>
               q_remove_tail head (Some buf) bufsize h =
                 Some (last xs,
                       Some (take (unat bufsize - 1) (the (val h (last xs))) @
                             replicate (unat bufsize - 1 - length (the (val h (last xs)))) (CHR 0x00) @
                             CHR 0x00 # drop (unat bufsize) buf),
                       h')))"
proof (rule conjI)
  from assms(2) obtain x ys where xs: "xs = [] @ x # ys" by (cases xs) auto
  have hv: "valid h head" "head \<noteq> 0" using assms(1) by (auto simp: ring_def valid_def)
  have xv: "valid h x" "val h x \<noteq> None" using assms(1) xs by (auto simp: ring_def)
  have fst: "get_next h head = Some x" using ring_head_next[OF assms(1)] hv xs by simp
  note del = list_del_ring[OF assms(1)[unfolded xs]] ring_del[OF assms(1)[unfolded xs]]
  let ?h' = "h\<lparr>prv := (prv h)(hd (ys @ [head]) := last [head]),
                 nxt := (nxt h)(last [head] := hd (ys @ [head]))\<rparr>"
  show "\<exists>h'. ring h' head (tl xs) \<and> alloc h' = alloc h \<and> val h' = val h \<and>
            (\<forall>bufsize. q_remove_head head None bufsize h = Some (hd xs, None, h')) \<and>
            (\<forall>buf bufsize. bufsize \<noteq> 0 \<longrightarrow> unat bufsize \<le> length buf \<longrightarrow>
               q_remove_head head (Some buf) bufsize h =
                 Some (hd xs,
                       Some (take (unat bufsize - 1) (the (val h (hd xs))) @
                             replicate (unat bufsize - 1 - length (the (val h (hd xs)))) (CHR 0x00) @
                             CHR 0x00 # drop (unat bufsize) buf),
                       h'))"
  proof (intro exI[of _ ?h'] conjI allI impI)
    show "ring ?h' head (tl xs)" using del(2) xs by simp
    show "\<And>bufsize. q_remove_head head None bufsize h = Some (hd xs, None, ?h')"
      using hv fst del(1) xs ring_nonempty_not_empty[OF assms]
      by (simp add: q_remove_head_def copy_out_None)
    show "\<And>buf bufsize. bufsize \<noteq> 0 \<Longrightarrow> unat bufsize \<le> length buf \<Longrightarrow>
       q_remove_head head (Some buf) bufsize h =
                 Some (hd xs,
                       Some (take (unat bufsize - 1) (the (val h (hd xs))) @
                             replicate (unat bufsize - 1 - length (the (val h (hd xs)))) (CHR 0x00) @
                             CHR 0x00 # drop (unat bufsize) buf),
                       ?h')"
      using hv fst del(1) xs xv ring_nonempty_not_empty[OF assms]
      by (auto simp: q_remove_head_def copy_out_Some)
  qed simp_all
next
  from assms(2) obtain x ys where xs: "xs = ys @ x # []" by (cases xs rule: rev_cases) auto
  have hv: "valid h head" "head \<noteq> 0" using assms(1) by (auto simp: ring_def valid_def)
  have xv: "valid h x" "val h x \<noteq> None" using assms(1) xs by (auto simp: ring_def)
  have lst: "get_prev h head = Some x" using ring_head_prev[OF assms(1)] hv xs by simp
  note del = list_del_ring[OF assms(1)[unfolded xs]] ring_del[OF assms(1)[unfolded xs]]
  let ?h' = "h\<lparr>prv := (prv h)(hd ([] @ [head]) := last (head # ys)),
                 nxt := (nxt h)(last (head # ys) := hd ([] @ [head]))\<rparr>"
  show "\<exists>h'. ring h' head (butlast xs) \<and> alloc h' = alloc h \<and> val h' = val h \<and>
            (\<forall>bufsize. q_remove_tail head None bufsize h = Some (last xs, None, h')) \<and>
            (\<forall>buf bufsize. bufsize \<noteq> 0 \<longrightarrow> unat bufsize \<le> length buf \<longrightarrow>
               q_remove_tail head (Some buf) bufsize h =
                 Some (last xs,
                       Some (take (unat bufsize - 1) (the (val h (last xs))) @
                             replicate (unat bufsize - 1 - length (the (val h (last xs)))) (CHR 0x00) @
                             CHR 0x00 # drop (unat bufsize) buf),
                       h'))"
  proof (intro exI[of _ ?h'] conjI allI impI)
    show "ring ?h' head (butlast xs)" using del(2) xs by simp
    show "\<And>bufsize. q_remove_tail head None bufsize h = Some (last xs, None, ?h')"
      using hv lst del(1) xs ring_nonempty_not_empty[OF assms]
      by (simp add: q_remove_tail_def copy_out_None)
    show "\<And>buf bufsize. bufsize \<noteq> 0 \<Longrightarrow> unat bufsize \<le> length buf \<Longrightarrow>
       q_remove_tail head (Some buf) bufsize h =
                 Some (last xs,
                       Some (take (unat bufsize - 1) (the (val h (last xs))) @
                             replicate (unat bufsize - 1 - length (the (val h (last xs)))) (CHR 0x00) @
                             CHR 0x00 # drop (unat bufsize) buf),
                       ?h')"
      using hv lst del(1) xs xv ring_nonempty_not_empty[OF assms]
      by (auto simp: q_remove_tail_def copy_out_Some)
  qed simp_all
qed

theorem q_remove_spec_witness:
  "ring (queue_of [''ab'', ''cd'']) 1 [2, 3] \<and>
   (\<exists>h'. ring h' 1 [3] \<and>
      q_remove_head 1 (Some ''wxyz'') 2 (queue_of [''ab'', ''cd'']) =
        Some (2, Some [CHR ''a'', CHR 0x00, CHR ''y'', CHR ''z''], h')) \<and>
   (\<exists>h'. ring h' 1 [2] \<and>
      q_remove_tail 1 (Some ''wxyz'') 4 (queue_of [''ab'', ''cd'']) =
        Some (3, Some [CHR ''c'', CHR ''d'', CHR 0x00, CHR 0x00], h'))"
proof -
  have r: "ring (queue_of [''ab'', ''cd'']) 1 [2, 3]"
    by (simp add: ring_def queue_of_def valid_def)
  have v: "val (queue_of [''ab'', ''cd'']) 2 = Some ''ab''" "val (queue_of [''ab'', ''cd'']) 3 = Some ''cd''"
    by (simp_all add: queue_of_def)
  from q_remove_spec [OF r] obtain h1 h2 where
    1: "ring h1 1 (tl [2, 3])"
       "\<forall>buf bufsize. bufsize \<noteq> 0 \<longrightarrow> unat bufsize \<le> length buf \<longrightarrow>
          q_remove_head 1 (Some buf) bufsize (queue_of [''ab'', ''cd'']) =
          Some (hd [2, 3],
                Some (take (unat bufsize - 1) (the (val (queue_of [''ab'', ''cd'']) (hd [2, 3]))) @
                      replicate (unat bufsize - 1 - length (the (val (queue_of [''ab'', ''cd'']) (hd [2, 3])))) (CHR 0x00) @
                      CHR 0x00 # drop (unat bufsize) buf), h1)" and
    2: "ring h2 1 (butlast [2, 3])"
       "\<forall>buf bufsize. bufsize \<noteq> 0 \<longrightarrow> unat bufsize \<le> length buf \<longrightarrow>
          q_remove_tail 1 (Some buf) bufsize (queue_of [''ab'', ''cd'']) =
          Some (last [2, 3],
                Some (take (unat bufsize - 1) (the (val (queue_of [''ab'', ''cd'']) (last [2, 3]))) @
                      replicate (unat bufsize - 1 - length (the (val (queue_of [''ab'', ''cd'']) (last [2, 3])))) (CHR 0x00) @
                      CHR 0x00 # drop (unat bufsize) buf), h2)"
    by (simp only: list.simps not_False_eq_True simp_thms) blast
  from 1(2)[rule_format, of 2 "''wxyz''"] 2(2)[rule_format, of 4 "''wxyz''"] 1(1) 2(1) r v
  show ?thesis by simp
qed

section \<open>The order of \<^verbatim>\<open>strcmp\<close>\<close>

lemma strcmp_range: "strcmp a b = - 1 \<or> strcmp a b = 0 \<or> strcmp a b = 1"
  by (induction a b rule: strcmp.induct) auto

lemma strcmp_refl [simp]: "strcmp a a = 0"
  by (induction a) auto

lemma strcmp_eq_0: "strcmp a b = 0 \<longleftrightarrow> a = b"
  by (induction a b rule: strcmp.induct) auto

lemma strcmp_swap: "strcmp b a = - strcmp a b"
  by (induction a b rule: strcmp.induct) (auto simp: not_less le_less)

lemma strcmp_less_trans: "strcmp a b < 0 \<Longrightarrow> strcmp b c < 0 \<Longrightarrow> strcmp a c < 0"
proof (induction a arbitrary: b c)
  case Nil
  then show ?case by (cases b; cases c) auto
next
  case (Cons x a)
  then show ?case
    by (cases b; cases c) (auto split: if_splits)
qed

lemma strcmp_le_trans: "strcmp a b \<le> 0 \<Longrightarrow> strcmp b c \<le> 0 \<Longrightarrow> strcmp a c \<le> 0"
  using strcmp_less_trans[of a b c] strcmp_eq_0[of a b] strcmp_eq_0[of b c]
  by (cases "strcmp a b = 0"; cases "strcmp b c = 0") auto

lemma strcmp_total: "strcmp a b \<le> 0 \<or> strcmp b a \<le> 0"
  using strcmp_swap[of a b] by arith

section \<open>Ascend and descend\<close>

lemma keep_scan_simps [simp]:
  "keep_scan rm v [] acc = acc"
  "keep_scan rm v (xs @ [p]) acc = keep_scan rm v xs (keep_step rm v p acc)"
  by (simp_all add: keep_scan_def)

lemma keep_scan_Cons: "keep_scan rm v (x # xs) acc = keep_step rm v x (keep_scan rm v xs acc)"
  by (simp add: keep_scan_def)

lemma keep_step_suffix: "\<exists>us. keep_step rm v p acc = us @ acc \<and> set us \<subseteq> {p}"
  by (cases acc) (auto simp: keep_step_def)

lemma keep_scan_suffix: "\<exists>us. keep_scan rm v xs acc = us @ acc \<and> subseq us xs"
proof (induction xs)
  case Nil
  then show ?case by simp
next
  case (Cons x xs)
  then obtain us where us: "keep_scan rm v xs acc = us @ acc" "subseq us xs" by blast
  show ?case
  proof (cases "us @ acc")
    case Nil
    with us show ?thesis by (auto simp: keep_scan_Cons keep_step_def intro!: exI[of _ "[x]"])
  next
    case (Cons y zs)
    show ?thesis
    proof (cases "rm (v y) (v x)")
      case True
      with Cons us show ?thesis
        by (auto simp: keep_scan_Cons keep_step_def intro!: exI[of _ us])
    next
      case False
      with Cons us show ?thesis
        by (auto simp: keep_scan_Cons keep_step_def intro!: exI[of _ "x # us"])
    qed
  qed
qed

lemma subseq_set_mono: "subseq us zs \<Longrightarrow> set us \<subseteq> set zs"
  by (induction rule: list_emb.induct) auto

lemma keep_scan_cong:
  "(\<And>n. n \<in> set xs \<union> set acc \<Longrightarrow> v n = w n) \<Longrightarrow> keep_scan rm v xs acc = keep_scan rm w xs acc"
proof (induction xs arbitrary: acc rule: rev_induct)
  case Nil
  then show ?case by simp
next
  case (snoc p xs)
  have s: "keep_step rm v p acc = keep_step rm w p acc"
    using snoc.prems by (cases acc) (auto simp: keep_step_def)
  have "set (keep_step rm w p acc) \<subseteq> {p} \<union> set acc"
    using keep_step_suffix[of rm w p acc] by auto
  then have "\<And>n. n \<in> set xs \<union> set (keep_step rm w p acc) \<Longrightarrow> v n = w n"
    using snoc.prems by auto
  from snoc.IH[OF this] s show ?case by simp
qed

lemma ring_release:
  assumes "ring h head xs" "p \<notin> set (head # xs)"
  shows "ring (h\<lparr>val := (val h)(p := None), alloc := alloc h - {p}\<rparr>) head xs"
  using assms by (auto simp: ring_def valid_def)

lemma q_release_element_valid:
  "valid h p \<Longrightarrow> val h p \<noteq> None \<Longrightarrow>
   q_release_element p h = Some (h\<lparr>val := (val h)(p := None), alloc := alloc h - {p}\<rparr>)"
  by (simp add: q_release_element_def)

text \<open>Unlinking and releasing a ring member in one step.\<close>

lemma ring_remove:
  assumes "ring h head (xs @ x # ys)"
  shows "\<exists>h1 h2. list_del x h = Some h1 \<and> q_release_element x h1 = Some h2 \<and>
           ring h2 head (xs @ ys) \<and> val h2 = (val h)(x := None) \<and> alloc h2 = alloc h - {x}"
proof -
  let ?h1 = "h\<lparr>prv := (prv h)(hd (ys @ [head]) := last (head # xs)),
                 nxt := (nxt h)(last (head # xs) := hd (ys @ [head]))\<rparr>"
  let ?h2 = "?h1\<lparr>val := (val ?h1)(x := None), alloc := alloc ?h1 - {x}\<rparr>"
  have d: "list_del x h = Some ?h1" by (rule list_del_ring[OF assms])
  have r1: "ring ?h1 head (xs @ ys)" by (rule ring_del[OF assms])
  have x: "valid h x" "val h x \<noteq> None" "x \<notin> set (head # xs @ ys)"
    using assms by (auto simp: ring_def)
  have "valid ?h1 x" "val ?h1 x \<noteq> None" using x by (simp_all add: valid_def)
  then have rel: "q_release_element x ?h1 = Some ?h2" by (rule q_release_element_valid)
  have "ring ?h2 head (xs @ ys)" using ring_release[OF r1, of x] x by simp
  with d rel show ?thesis by (intro exI[of _ ?h1] exI[of _ ?h2]) simp
qed

lemma q_ascend_loop_ring:
  assumes "ring h head (xs @ node # ys)" "\<forall>n \<in> set (xs @ node # ys). val h n = Some (v n)"
  shows "\<exists>h'. q_ascend_loop head node h = Some h' \<and>
           ring h' head (keep_scan (\<lambda>c p. strcmp c p < 0) v xs (node # ys)) \<and>
           val h' = (\<lambda>n. if n \<in> set xs - set (keep_scan (\<lambda>c p. strcmp c p < 0) v xs (node # ys))
                          then None else val h n) \<and>
           alloc h' = alloc h - (set xs - set (keep_scan (\<lambda>c p. strcmp c p < 0) v xs (node # ys)))"
  using assms
proof (induction xs arbitrary: node ys h rule: rev_induct)
  case Nil
  then have "valid h node" "prv h node = head"
    using ring_prev[of h head "[]" node ys] by (auto simp: ring_def)
  then show ?case using Nil by (subst q_ascend_loop.simps) (auto simp: keep_scan_def)
next
  case (snoc p zs)
  let ?rm = "\<lambda>c p. strcmp c p < (0::int)"
  from snoc.prems(1) have r: "ring h head ((zs @ [p]) @ node # ys)" by simp
  have vn: "valid h node" "valid h p" using snoc.prems(1) by (auto simp: ring_def)
  have pn: "prv h node = p" using ring_prev[OF r] by simp
  have ph: "p \<noteq> head" using snoc.prems(1) by (auto simp: ring_def)
  have vals: "val h node = Some (v node)" "val h p = Some (v p)" using snoc.prems(2) by auto
  show ?case
  proof (cases "strcmp (v node) (v p) < 0")
    case True
    from snoc.prems(1) have r': "ring h head (zs @ p # node # ys)" by simp
    from ring_remove[OF r'] obtain h1 h2 where
      h: "list_del p h = Some h1" "q_release_element p h1 = Some h2"
         "ring h2 head (zs @ node # ys)" "val h2 = (val h)(p := None)" "alloc h2 = alloc h - {p}"
      by blast
    have pd: "p \<notin> set (zs @ node # ys)" using r' by (auto simp: ring_def)
    then have "\<forall>n \<in> set (zs @ node # ys). val h2 n = Some (v n)"
      using snoc.prems(2) h(4) by auto
    from snoc.IH[OF h(3) this] obtain h' where
      h': "q_ascend_loop head node h2 = Some h'"
          "ring h' head (keep_scan ?rm v zs (node # ys))"
          "val h' = (\<lambda>n. if n \<in> set zs - set (keep_scan ?rm v zs (node # ys)) then None else val h2 n)"
          "alloc h' = alloc h2 - (set zs - set (keep_scan ?rm v zs (node # ys)))"
      by blast
    have ks: "keep_scan ?rm v (zs @ [p]) (node # ys) = keep_scan ?rm v zs (node # ys)"
      using True by (simp add: keep_step_def)
    obtain us where us: "keep_scan ?rm v zs (node # ys) = us @ node # ys" "subseq us zs"
      using keep_scan_suffix by blast
    then have pk: "p \<notin> set (keep_scan ?rm v zs (node # ys))"
      using pd subseq_set_mono[OF us(2)] by auto
    have call: "q_ascend_loop head node h = Some h'"
      by (subst q_ascend_loop.simps) (simp add: vn pn ph vals True h(1,2) h'(1))
    show ?thesis
      unfolding ks using call h'(2,3,4) h(4,5) pk by (intro exI[of _ h']) (auto simp: fun_eq_iff)
  next
    case False
    from snoc.prems(1) have r': "ring h head (zs @ p # node # ys)" by simp
    have "\<forall>n \<in> set (zs @ p # node # ys). val h n = Some (v n)" using snoc.prems(2) by auto
    from snoc.IH[OF r' this] obtain h' where
      h': "q_ascend_loop head p h = Some h'"
          "ring h' head (keep_scan ?rm v zs (p # node # ys))"
          "val h' = (\<lambda>n. if n \<in> set zs - set (keep_scan ?rm v zs (p # node # ys)) then None else val h n)"
          "alloc h' = alloc h - (set zs - set (keep_scan ?rm v zs (p # node # ys)))"
      by blast
    have ks: "keep_scan ?rm v (zs @ [p]) (node # ys) = keep_scan ?rm v zs (p # node # ys)"
      using False by (simp add: keep_step_def)
    obtain us where us: "keep_scan ?rm v zs (p # node # ys) = us @ p # node # ys"
      using keep_scan_suffix by blast
    have call: "q_ascend_loop head node h = Some h'"
      by (subst q_ascend_loop.simps) (simp add: vn pn ph vals False h'(1))
    show ?thesis
      unfolding ks using call h'(2,3,4) us by (intro exI[of _ h']) (auto simp: fun_eq_iff)
  qed
qed

lemma q_descend_loop_ring:
  assumes "ring h head (xs @ node # ys)" "\<forall>n \<in> set (xs @ node # ys). val h n = Some (v n)"
  shows "\<exists>h'. q_descend_loop head node h = Some h' \<and>
           ring h' head (keep_scan (\<lambda>c p. 0 < strcmp c p) v xs (node # ys)) \<and>
           val h' = (\<lambda>n. if n \<in> set xs - set (keep_scan (\<lambda>c p. 0 < strcmp c p) v xs (node # ys))
                          then None else val h n) \<and>
           alloc h' = alloc h - (set xs - set (keep_scan (\<lambda>c p. 0 < strcmp c p) v xs (node # ys)))"
  using assms
proof (induction xs arbitrary: node ys h rule: rev_induct)
  case Nil
  then have "valid h node" "prv h node = head"
    using ring_prev[of h head "[]" node ys] by (auto simp: ring_def)
  then show ?case using Nil by (subst q_descend_loop.simps) (auto simp: keep_scan_def)
next
  case (snoc p zs)
  let ?rm = "\<lambda>c p. (0::int) < strcmp c p"
  from snoc.prems(1) have r: "ring h head ((zs @ [p]) @ node # ys)" by simp
  have vn: "valid h node" "valid h p" using snoc.prems(1) by (auto simp: ring_def)
  have pn: "prv h node = p" using ring_prev[OF r] by simp
  have ph: "p \<noteq> head" using snoc.prems(1) by (auto simp: ring_def)
  have vals: "val h node = Some (v node)" "val h p = Some (v p)" using snoc.prems(2) by auto
  show ?case
  proof (cases "0 < strcmp (v node) (v p)")
    case True
    from snoc.prems(1) have r': "ring h head (zs @ p # node # ys)" by simp
    from ring_remove[OF r'] obtain h1 h2 where
      h: "list_del p h = Some h1" "q_release_element p h1 = Some h2"
         "ring h2 head (zs @ node # ys)" "val h2 = (val h)(p := None)" "alloc h2 = alloc h - {p}"
      by blast
    have pd: "p \<notin> set (zs @ node # ys)" using r' by (auto simp: ring_def)
    then have "\<forall>n \<in> set (zs @ node # ys). val h2 n = Some (v n)"
      using snoc.prems(2) h(4) by auto
    from snoc.IH[OF h(3) this] obtain h' where
      h': "q_descend_loop head node h2 = Some h'"
          "ring h' head (keep_scan ?rm v zs (node # ys))"
          "val h' = (\<lambda>n. if n \<in> set zs - set (keep_scan ?rm v zs (node # ys)) then None else val h2 n)"
          "alloc h' = alloc h2 - (set zs - set (keep_scan ?rm v zs (node # ys)))"
      by blast
    have ks: "keep_scan ?rm v (zs @ [p]) (node # ys) = keep_scan ?rm v zs (node # ys)"
      using True by (simp add: keep_step_def)
    obtain us where us: "keep_scan ?rm v zs (node # ys) = us @ node # ys" "subseq us zs"
      using keep_scan_suffix by blast
    then have pk: "p \<notin> set (keep_scan ?rm v zs (node # ys))"
      using pd subseq_set_mono[OF us(2)] by auto
    have call: "q_descend_loop head node h = Some h'"
      by (subst q_descend_loop.simps) (simp add: vn pn ph vals True h(1,2) h'(1))
    show ?thesis
      unfolding ks using call h'(2,3,4) h(4,5) pk by (intro exI[of _ h']) (auto simp: fun_eq_iff)
  next
    case False
    from snoc.prems(1) have r': "ring h head (zs @ p # node # ys)" by simp
    have "\<forall>n \<in> set (zs @ p # node # ys). val h n = Some (v n)" using snoc.prems(2) by auto
    from snoc.IH[OF r' this] obtain h' where
      h': "q_descend_loop head p h = Some h'"
          "ring h' head (keep_scan ?rm v zs (p # node # ys))"
          "val h' = (\<lambda>n. if n \<in> set zs - set (keep_scan ?rm v zs (p # node # ys)) then None else val h n)"
          "alloc h' = alloc h - (set zs - set (keep_scan ?rm v zs (p # node # ys)))"
      by blast
    have ks: "keep_scan ?rm v (zs @ [p]) (node # ys) = keep_scan ?rm v zs (p # node # ys)"
      using False by (simp add: keep_step_def)
    obtain us where us: "keep_scan ?rm v zs (p # node # ys) = us @ p # node # ys"
      using keep_scan_suffix by blast
    have call: "q_descend_loop head node h = Some h'"
      by (subst q_descend_loop.simps) (simp add: vn pn ph vals False h'(1))
    show ?thesis
      unfolding ks using call h'(2,3,4) us by (intro exI[of _ h']) (auto simp: fun_eq_iff)
  qed
qed

lemma keep_scan_subseq: "subseq (keep_scan rm v xs []) xs"
  using keep_scan_suffix[of rm v xs "[]"] by auto

lemma keep_scan_sorted:
  assumes tr: "\<And>a b c. \<not> rm b a \<Longrightarrow> \<not> rm c b \<Longrightarrow> \<not> rm c a"
  shows "sorted_wrt (\<lambda>a b. \<not> rm (v b) (v a)) (keep_scan rm v xs [])"
proof (induction xs)
  case Nil
  then show ?case by simp
next
  case (Cons x xs)
  show ?case
  proof (cases "keep_scan rm v xs []")
    case Nil
    then show ?thesis by (simp add: keep_scan_Cons keep_step_def)
  next
    case (Cons y ys)
    with Cons.IH have s: "\<forall>b \<in> set ys. \<not> rm (v b) (v y)" "sorted_wrt (\<lambda>a b. \<not> rm (v b) (v a)) (y # ys)"
      by simp_all
    show ?thesis
    proof (cases "rm (v y) (v x)")
      case True
      with Cons s show ?thesis by (simp add: keep_scan_Cons keep_step_def)
    next
      case False
      then have "\<forall>b \<in> set (y # ys). \<not> rm (v b) (v x)" using s(1) tr by auto
      with Cons s False show ?thesis by (simp add: keep_scan_Cons keep_step_def)
    qed
  qed
qed

lemma keep_scan_append: "keep_scan rm v (xs @ ys) acc = keep_scan rm v xs (keep_scan rm v ys acc)"
  by (simp add: keep_scan_def)

lemma keep_scan_removed:
  assumes "x \<notin> set (keep_scan rm v (as @ x # bs) [])"
  shows "\<exists>y \<in> set bs. rm (v y) (v x)"
proof -
  let ?K = "keep_scan rm v bs []"
  obtain us where "keep_scan rm v as (keep_step rm v x ?K) = us @ keep_step rm v x ?K"
    using keep_scan_suffix by blast
  with assms have nx: "x \<notin> set (keep_step rm v x ?K)"
    by (simp add: keep_scan_append keep_scan_Cons)
  then obtain y ys where K: "?K = y # ys" "rm (v y) (v x)"
    by (cases ?K) (auto simp: keep_step_def split: if_splits)
  have "set ?K \<subseteq> set bs" using keep_scan_subseq by (rule subseq_set_mono)
  with K show ?thesis by auto
qed

lemma q_ascend_ring:
  assumes "ring h head xs" "xs \<noteq> []"
  shows "\<exists>h'. q_ascend head h = Some (0, h') \<and>
           ring h' head (keep_scan (\<lambda>c p. strcmp c p < 0) (\<lambda>n. the (val h n)) xs []) \<and>
           val h' = (\<lambda>n. if n \<in> set xs - set (keep_scan (\<lambda>c p. strcmp c p < 0) (\<lambda>n. the (val h n)) xs [])
                          then None else val h n) \<and>
           alloc h' = alloc h - (set xs - set (keep_scan (\<lambda>c p. strcmp c p < 0) (\<lambda>n. the (val h n)) xs []))"
proof -
  let ?rm = "\<lambda>c p. strcmp c p < (0::int)" and ?v = "\<lambda>n. the (val h n)"
  from assms(2) obtain zs node where xs: "xs = zs @ [node]" by (cases xs rule: rev_cases) auto
  have hv: "valid h head" "head \<noteq> 0" using assms(1) by (auto simp: ring_def valid_def)
  have lst: "prv h head = node" using ring_head_prev[OF assms(1)] xs by simp
  have r: "ring h head (zs @ node # [])" using assms(1) xs by simp
  have "\<forall>n \<in> set (zs @ node # []). val h n = Some (?v n)" using r by (auto simp: ring_def)
  from q_ascend_loop_ring[OF r this] obtain h' where
    h': "q_ascend_loop head node h = Some h'"
        "ring h' head (keep_scan ?rm ?v zs [node])"
        "val h' = (\<lambda>n. if n \<in> set zs - set (keep_scan ?rm ?v zs [node]) then None else val h n)"
        "alloc h' = alloc h - (set zs - set (keep_scan ?rm ?v zs [node]))"
    by blast
  have ks: "keep_scan ?rm ?v xs [] = keep_scan ?rm ?v zs [node]"
    by (simp add: xs keep_step_def)
  obtain us where "keep_scan ?rm ?v zs [node] = us @ [node]" using keep_scan_suffix by blast
  then have eq: "set xs - set (keep_scan ?rm ?v zs [node]) = set zs - set (keep_scan ?rm ?v zs [node])"
    by (auto simp: xs)
  have "q_ascend head h = Some (0, h')"
    by (simp add: q_ascend_def hv lst h'(1) ring_nonempty_not_empty[OF assms])
  then show ?thesis unfolding ks eq using h'(2,3,4) by (intro exI[of _ h']) simp
qed

lemma q_descend_ring:
  assumes "ring h head xs" "xs \<noteq> []"
  shows "\<exists>h'. q_descend head h = Some (0, h') \<and>
           ring h' head (keep_scan (\<lambda>c p. 0 < strcmp c p) (\<lambda>n. the (val h n)) xs []) \<and>
           val h' = (\<lambda>n. if n \<in> set xs - set (keep_scan (\<lambda>c p. 0 < strcmp c p) (\<lambda>n. the (val h n)) xs [])
                          then None else val h n) \<and>
           alloc h' = alloc h - (set xs - set (keep_scan (\<lambda>c p. 0 < strcmp c p) (\<lambda>n. the (val h n)) xs []))"
proof -
  let ?rm = "\<lambda>c p. (0::int) < strcmp c p" and ?v = "\<lambda>n. the (val h n)"
  from assms(2) obtain zs node where xs: "xs = zs @ [node]" by (cases xs rule: rev_cases) auto
  have hv: "valid h head" "head \<noteq> 0" using assms(1) by (auto simp: ring_def valid_def)
  have lst: "prv h head = node" using ring_head_prev[OF assms(1)] xs by simp
  have r: "ring h head (zs @ node # [])" using assms(1) xs by simp
  have "\<forall>n \<in> set (zs @ node # []). val h n = Some (?v n)" using r by (auto simp: ring_def)
  from q_descend_loop_ring[OF r this] obtain h' where
    h': "q_descend_loop head node h = Some h'"
        "ring h' head (keep_scan ?rm ?v zs [node])"
        "val h' = (\<lambda>n. if n \<in> set zs - set (keep_scan ?rm ?v zs [node]) then None else val h n)"
        "alloc h' = alloc h - (set zs - set (keep_scan ?rm ?v zs [node]))"
    by blast
  have ks: "keep_scan ?rm ?v xs [] = keep_scan ?rm ?v zs [node]"
    by (simp add: xs keep_step_def)
  obtain us where "keep_scan ?rm ?v zs [node] = us @ [node]" using keep_scan_suffix by blast
  then have eq: "set xs - set (keep_scan ?rm ?v zs [node]) = set zs - set (keep_scan ?rm ?v zs [node])"
    by (auto simp: xs)
  have "q_descend head h = Some (0, h')"
    by (simp add: q_descend_def hv lst h'(1) ring_nonempty_not_empty[OF assms])
  then show ?thesis unfolding ks eq using h'(2,3,4) by (intro exI[of _ h']) simp
qed

lemma not_less_trans_asc:
  "\<not> strcmp b a < 0 \<Longrightarrow> \<not> strcmp c b < 0 \<Longrightarrow> \<not> strcmp c a < 0"
  using strcmp_le_trans[of a b c] strcmp_swap[of a b] strcmp_swap[of b c] strcmp_swap[of a c]
  by simp

lemma not_less_trans_desc:
  "\<not> 0 < strcmp b a \<Longrightarrow> \<not> 0 < strcmp c b \<Longrightarrow> \<not> 0 < strcmp c a"
  using strcmp_le_trans[of c b a] by simp

lemma ring_sample_4: "length vs = 4 \<Longrightarrow> ring (queue_of vs) 1 [2, 3, 4, 5]"
  by (simp add: ring_def queue_of_def valid_def)

text \<open>
  C6: on a non-empty ring \<^verbatim>\<open>q_ascend\<close> returns and leaves a ring whose nodes are a
  subsequence of the input (so the survivors keep their order and their strings) in
  which no node has a strictly smaller string, by \<^verbatim>\<open>strcmp\<close>, anywhere later; every
  node it removed had a strictly smaller string later in the input.  \<^verbatim>\<open>q_descend\<close>
  does the same for strictly greater strings.  On the ring "5","3","4","2"
  \<^verbatim>\<open>q_ascend\<close> leaves the single element "2".
\<close>

theorem q_ascend_descend_spec:
  "(ring h head xs \<and> xs \<noteq> [] \<longrightarrow>
      (\<exists>h' ys. q_ascend head h = Some (0, h') \<and> ring h' head ys \<and> subseq ys xs \<and>
         (\<forall>n \<in> set ys. val h' n = val h n) \<and>
         sorted_wrt (\<lambda>a b. \<not> strcmp (the (val h' b)) (the (val h' a)) < 0) ys \<and>
         (\<forall>as x bs. xs = as @ x # bs \<and> x \<notin> set ys \<longrightarrow>
            (\<exists>y \<in> set bs. strcmp (the (val h y)) (the (val h x)) < 0))) \<and>
      (\<exists>h' ys. q_descend head h = Some (0, h') \<and> ring h' head ys \<and> subseq ys xs \<and>
         (\<forall>n \<in> set ys. val h' n = val h n) \<and>
         sorted_wrt (\<lambda>a b. \<not> 0 < strcmp (the (val h' b)) (the (val h' a))) ys \<and>
         (\<forall>as x bs. xs = as @ x # bs \<and> x \<notin> set ys \<longrightarrow>
            (\<exists>y \<in> set bs. 0 < strcmp (the (val h y)) (the (val h x)))))) \<and>
   (\<exists>h'. q_ascend 1 (queue_of [''5'', ''3'', ''4'', ''2'']) = Some (0, h') \<and>
         ring h' 1 [5] \<and> strings_of h' [5] = [''2''])"
proof (intro conjI impI)
  assume a: "ring h head xs \<and> xs \<noteq> []"
  let ?v = "\<lambda>n. the (val h n)"
  let ?rm = "\<lambda>c p. strcmp c p < (0::int)"
  let ?ys = "keep_scan ?rm ?v xs []"
  from a q_ascend_ring[of h head xs] obtain h' where
    h': "q_ascend head h = Some (0, h')" "ring h' head ?ys"
        "val h' = (\<lambda>n. if n \<in> set xs - set ?ys then None else val h n)"
    by blast
  have v: "\<forall>n \<in> set ?ys. val h' n = val h n" using h'(3) by simp
  have "sorted_wrt (\<lambda>a b. \<not> ?rm (?v b) (?v a)) ?ys"
    by (rule keep_scan_sorted) (rule not_less_trans_asc)
  then have s: "sorted_wrt (\<lambda>a b. \<not> strcmp (the (val h' b)) (the (val h' a)) < 0) ?ys"
    by (rule sorted_wrt_mono_rel[rotated]) (simp add: v)
  have "\<forall>as x bs. xs = as @ x # bs \<and> x \<notin> set ?ys \<longrightarrow> (\<exists>y \<in> set bs. ?rm (?v y) (?v x))"
    using keep_scan_removed[of _ ?rm ?v] by blast
  with h'(1,2) v s keep_scan_subseq[of ?rm ?v xs]
  show "\<exists>h' ys. q_ascend head h = Some (0, h') \<and> ring h' head ys \<and> subseq ys xs \<and>
         (\<forall>n \<in> set ys. val h' n = val h n) \<and>
         sorted_wrt (\<lambda>a b. \<not> strcmp (the (val h' b)) (the (val h' a)) < 0) ys \<and>
         (\<forall>as x bs. xs = as @ x # bs \<and> x \<notin> set ys \<longrightarrow>
            (\<exists>y \<in> set bs. strcmp (the (val h y)) (the (val h x)) < 0))"
    by (intro exI[of _ h'] exI[of _ ?ys]) simp
next
  assume a: "ring h head xs \<and> xs \<noteq> []"
  let ?v = "\<lambda>n. the (val h n)"
  let ?rm = "\<lambda>c p. (0::int) < strcmp c p"
  let ?ys = "keep_scan ?rm ?v xs []"
  from a q_descend_ring[of h head xs] obtain h' where
    h': "q_descend head h = Some (0, h')" "ring h' head ?ys"
        "val h' = (\<lambda>n. if n \<in> set xs - set ?ys then None else val h n)"
    by blast
  have v: "\<forall>n \<in> set ?ys. val h' n = val h n" using h'(3) by simp
  have "sorted_wrt (\<lambda>a b. \<not> ?rm (?v b) (?v a)) ?ys"
    by (rule keep_scan_sorted) (rule not_less_trans_desc)
  then have s: "sorted_wrt (\<lambda>a b. \<not> 0 < strcmp (the (val h' b)) (the (val h' a))) ?ys"
    by (rule sorted_wrt_mono_rel[rotated]) (simp add: v)
  have "\<forall>as x bs. xs = as @ x # bs \<and> x \<notin> set ?ys \<longrightarrow> (\<exists>y \<in> set bs. ?rm (?v y) (?v x))"
    using keep_scan_removed[of _ ?rm ?v] by blast
  with h'(1,2) v s keep_scan_subseq[of ?rm ?v xs]
  show "\<exists>h' ys. q_descend head h = Some (0, h') \<and> ring h' head ys \<and> subseq ys xs \<and>
         (\<forall>n \<in> set ys. val h' n = val h n) \<and>
         sorted_wrt (\<lambda>a b. \<not> 0 < strcmp (the (val h' b)) (the (val h' a))) ys \<and>
         (\<forall>as x bs. xs = as @ x # bs \<and> x \<notin> set ys \<longrightarrow>
            (\<exists>y \<in> set bs. 0 < strcmp (the (val h y)) (the (val h x))))"
    by (intro exI[of _ h'] exI[of _ ?ys]) simp
next
  let ?q = "queue_of [''5'', ''3'', ''4'', ''2'']"
  have r: "ring ?q 1 [2, 3, 4, 5]" by (rule ring_sample_4) simp
  have k: "keep_scan (\<lambda>c p. strcmp c p < 0) (\<lambda>n. the (val ?q n)) [2, 3, 4, 5] [] = [5]"
    by (simp add: keep_scan_def keep_step_def queue_of_def)
  from q_ascend_ring[OF r] obtain h' where
    "q_ascend 1 ?q = Some (0, h')" "ring h' 1 [5]"
    "val h' = (\<lambda>n. if n \<in> set [2, 3, 4, 5] - set [5::nat] then None else val ?q n)"
    unfolding k by blast
  moreover from this(3) have "strings_of h' [5] = [''2'']"
    by (simp add: strings_of_def queue_of_def)
  ultimately show "\<exists>h'. q_ascend 1 ?q = Some (0, h') \<and> ring h' 1 [5] \<and> strings_of h' [5] = [''2'']"
    by blast
qed

theorem q_ascend_descend_spec_witness:
  "ring (queue_of [''1'', ''3'', ''2'', ''3'']) 1 [2, 3, 4, 5] \<and>
   (\<exists>h' ys. q_ascend 1 (queue_of [''1'', ''3'', ''2'', ''3'']) = Some (0, h') \<and> ring h' 1 ys \<and>
       subseq ys [2, 3, 4, 5])"
proof -
  have r: "ring (queue_of [''1'', ''3'', ''2'', ''3'']) 1 [2, 3, 4, 5]" by (rule ring_sample_4) simp
  from q_ascend_descend_spec[of "queue_of [''1'', ''3'', ''2'', ''3'']" 1 "[2, 3, 4, 5]"] r
  show ?thesis by blast
qed

text \<open>
  C9: \<^verbatim>\<open>q_ascend\<close> and \<^verbatim>\<open>q_descend\<close> return the integer 0 on every input: a
  \<^verbatim>\<open>NULL\<close> head, an empty ring, and a ring of any number of elements, however many
  of them are deleted.
\<close>

theorem q_ascend_descend_return_0:
  "(head = 0 \<or> ring h head xs) \<longrightarrow>
     (\<exists>h'. q_ascend head h = Some (0, h')) \<and> (\<exists>h'. q_descend head h = Some (0, h'))"
proof
  assume "head = 0 \<or> ring h head xs"
  then consider "head = 0" | "ring h head xs" "xs = []" | "ring h head xs" "xs \<noteq> []" by blast
  then show "(\<exists>h'. q_ascend head h = Some (0, h')) \<and> (\<exists>h'. q_descend head h = Some (0, h'))"
  proof cases
    case 1
    then show ?thesis by (simp add: q_ascend_def q_descend_def)
  next
    case 2
    then have "list_empty h head = Some True" by (simp add: ring_empty_empty)
    then show ?thesis by (simp add: q_ascend_def q_descend_def)
  next
    case 3
    from q_ascend_ring[OF 3] q_descend_ring[OF 3] show ?thesis by blast
  qed
qed

theorem q_ascend_descend_return_0_witness:
  "ring (queue_of [''5'', ''3'', ''4'', ''2'']) 1 [2, 3, 4, 5] \<and>
   (\<exists>h'. q_ascend 1 (queue_of [''5'', ''3'', ''4'', ''2'']) = Some (0, h')) \<and>
   (\<exists>h'. q_descend 1 (queue_of [''5'', ''3'', ''4'', ''2'']) = Some (0, h'))"
proof -
  have r: "ring (queue_of [''5'', ''3'', ''4'', ''2'']) 1 [2, 3, 4, 5]" by (rule ring_sample_4) simp
  from q_ascend_descend_return_0[of 1 "queue_of [''5'', ''3'', ''4'', ''2'']" "[2, 3, 4, 5]"] r
  show ?thesis by blast
qed

section \<open>Deleting duplicates\<close>

lemma dedup_scan_subset: "set (dedup_scan v d cs) \<subseteq> set cs"
  by (induction v d cs rule: dedup_scan.induct) (auto split: if_splits)

lemma dedup_scan_cong:
  "(\<And>n. n \<in> set cs \<Longrightarrow> v n = w n) \<Longrightarrow> dedup_scan v d cs = dedup_scan w d cs"
proof (induction cs arbitrary: d)
  case Nil
  then show ?case by simp
next
  case (Cons c rest)
  then have "dedup_scan v d' rest = dedup_scan w d' rest" for d' by simp
  moreover have "v c = w c" using Cons.prems by simp
  moreover have "rest \<noteq> [] \<Longrightarrow> v (hd rest) = w (hd rest)" using Cons.prems by (cases rest) auto
  ultimately show ?case by (cases "rest = []") simp_all
qed

lemma q_delete_dup_loop_ring:
  assumes "ring h head (ks @ cs)" "\<forall>n \<in> set cs. val h n = Some (v n)"
    "curr_ele = hd (cs @ [head])" "cs \<noteq> [] \<longrightarrow> next_ele = hd (tl cs @ [head])"
  shows "\<exists>h'. q_delete_dup_loop head curr_ele next_ele is_dup h = Some h' \<and>
           ring h' head (ks @ dedup_scan v is_dup cs) \<and>
           val h' = (\<lambda>n. if n \<in> set cs - set (dedup_scan v is_dup cs) then None else val h n) \<and>
           alloc h' = alloc h - (set cs - set (dedup_scan v is_dup cs))"
  using assms
proof (induction cs arbitrary: ks h curr_ele next_ele is_dup)
  case Nil
  then show ?case by (subst q_delete_dup_loop.simps) simp
next
  case (Cons c rest)
  from Cons.prems have cur: "curr_ele = c" and nx: "next_ele = hd (rest @ [head])" by simp_all
  note r = Cons.prems(1)
  have vc: "valid h c" "c \<noteq> head" "val h c = Some (v c)" "valid h head"
    using r Cons.prems(2) by (auto simp: ring_def)
  have cn: "nxt h c = hd (rest @ [head])" using ring_next[OF r] .
  have vn: "rest \<noteq> [] \<Longrightarrow> valid h (hd rest) \<and> val h (hd rest) = Some (v (hd rest))"
    using r Cons.prems(2) by (cases rest) (auto simp: ring_def)
  have nxv: "valid h (hd (rest @ [head]))" using vn vc(4) by (cases rest) auto
  define same where "same \<longleftrightarrow> rest \<noteq> [] \<and> strcmp (v c) (v (hd rest)) = 0"
  have same_eval: "(if nxt h c \<noteq> head
                 then do { cv \<leftarrow> get_value h c; nv \<leftarrow> get_value h (hd (rest @ [head]));
                           Some (strcmp cv nv = 0) }
                 else Some False) = Some same"
  proof (cases rest)
    case Nil
    then show ?thesis by (simp add: cn same_def)
  next
    case (Cons r rs)
    have "r \<noteq> head" using Cons.prems(1) \<open>ring h head (ks @ c # rest)\<close> Cons by (auto simp: ring_def)
    then show ?thesis using vn Cons vc by (simp add: cn same_def)
  qed
  have next_after: "\<And>h2 ks'. ring h2 head (ks' @ rest) \<Longrightarrow>
      get_next h2 (hd (rest @ [head])) = Some (nxt h2 (hd (rest @ [head]))) \<and>
      (rest \<noteq> [] \<longrightarrow> nxt h2 (hd (rest @ [head])) = hd (tl rest @ [head]))"
  proof -
    fix h2 ks' assume r2: "ring h2 head (ks' @ rest)"
    show "get_next h2 (hd (rest @ [head])) = Some (nxt h2 (hd (rest @ [head]))) \<and>
      (rest \<noteq> [] \<longrightarrow> nxt h2 (hd (rest @ [head])) = hd (tl rest @ [head]))"
    proof (cases rest)
      case Nil
      then show ?thesis using r2 by (auto simp: ring_def)
    next
      case (Cons r rs)
      with r2 have "ring h2 head (ks' @ r # rs)" by simp
      from ring_next[OF this] ring_valid[OF this, of r] Cons show ?thesis by simp
    qed
  qed
  show ?case
  proof (cases "same \<or> is_dup")
    case True
    from ring_remove[OF r] obtain h1 h2 where
      h: "list_del c h = Some h1" "q_release_element c h1 = Some h2"
         "ring h2 head (ks @ rest)" "val h2 = (val h)(c := None)" "alloc h2 = alloc h - {c}"
      by blast
    have cd: "c \<notin> set rest" using r by (auto simp: ring_def)
    then have v2: "\<forall>n \<in> set rest. val h2 n = Some (v n)" using Cons.prems(2) h(4) by auto
    note na = next_after[OF h(3)]
    from Cons.IH[OF h(3) v2 refl, of "nxt h2 (hd (rest @ [head]))" same] na
    obtain h' where
      h': "q_delete_dup_loop head (hd (rest @ [head])) (nxt h2 (hd (rest @ [head]))) same h2 = Some h'"
          "ring h' head (ks @ dedup_scan v same rest)"
          "val h' = (\<lambda>n. if n \<in> set rest - set (dedup_scan v same rest) then None else val h2 n)"
          "alloc h' = alloc h2 - (set rest - set (dedup_scan v same rest))"
      by blast
    have ds: "dedup_scan v is_dup (c # rest) = dedup_scan v same rest"
      using True by (auto simp: same_def)
    have cnd: "c \<notin> set (dedup_scan v same rest)" using cd dedup_scan_subset by blast
    have step: "(if same then do {
                 h1 \<leftarrow> list_del c h; h2 \<leftarrow> q_release_element c h1;
                 Some (True, h2) }
              else if is_dup then do {
                 h1 \<leftarrow> list_del c h; h2 \<leftarrow> q_release_element c h1;
                 Some (False, h2) }
              else Some (is_dup, h)) = Some (same, h2)"
      using True by (cases same; cases is_dup) (simp_all add: h(1,2))
    have call: "q_delete_dup_loop head curr_ele next_ele is_dup h = Some h'"
      unfolding cur nx
      by (subst q_delete_dup_loop.simps) (simp add: vc same_eval step na h'(1))
    show ?thesis
      unfolding ds using call h'(2,3,4) h(4,5) cnd by (intro exI[of _ h']) (auto simp: fun_eq_iff)
  next
    case False
    have r': "ring h head ((ks @ [c]) @ rest)" using r by simp
    have v2: "\<forall>n \<in> set rest. val h n = Some (v n)" using Cons.prems(2) by auto
    note na = next_after[OF r']
    from Cons.IH[OF r' v2 refl, of "nxt h (hd (rest @ [head]))" False] na
    obtain h' where
      h': "q_delete_dup_loop head (hd (rest @ [head])) (nxt h (hd (rest @ [head]))) False h = Some h'"
          "ring h' head ((ks @ [c]) @ dedup_scan v False rest)"
          "val h' = (\<lambda>n. if n \<in> set rest - set (dedup_scan v False rest) then None else val h n)"
          "alloc h' = alloc h - (set rest - set (dedup_scan v False rest))"
      by blast
    have ds: "dedup_scan v is_dup (c # rest) = c # dedup_scan v False rest"
      using False by (auto simp: same_def)
    have step: "(if same then do {
                 h1 \<leftarrow> list_del c h; h2 \<leftarrow> q_release_element c h1;
                 Some (True, h2) }
              else if is_dup then do {
                 h1 \<leftarrow> list_del c h; h2 \<leftarrow> q_release_element c h1;
                 Some (False, h2) }
              else Some (is_dup, h)) = Some (False, h)"
      using False by simp
    have call: "q_delete_dup_loop head curr_ele next_ele is_dup h = Some h'"
      unfolding cur nx
      by (subst q_delete_dup_loop.simps) (simp add: vc same_eval step na h'(1))
    have cd: "c \<notin> set rest" using r by (auto simp: ring_def)
    show ?thesis
      unfolding ds using call h'(2,3,4) cd by (intro exI[of _ h']) (auto simp: fun_eq_iff)
  qed
qed

lemma strcmp_antisym: "strcmp a b \<le> 0 \<Longrightarrow> strcmp b a \<le> 0 \<Longrightarrow> a = b"
  using strcmp_swap[of a b] strcmp_eq_0[of a b] by simp

lemma grouped_tl: "grouped v (c # cs) \<Longrightarrow> grouped v cs"
  by (cases cs) auto

lemma sorted_asc_grouped:
  "sorted_wrt (\<lambda>a b. strcmp (v a) (v b) \<le> 0) cs \<Longrightarrow> grouped v cs"
proof (induction v cs rule: grouped.induct)
  case (3 v c r rs)
  have "v c \<noteq> v n" if "v c \<noteq> v r" "n \<in> set rs" for n
  proof
    assume "v c = v n"
    with 3(2) that(2) have "strcmp (v r) (v c) \<le> 0" "strcmp (v c) (v r) \<le> 0" by auto
    with that(1) show False using strcmp_antisym by blast
  qed
  with 3 show ?case by auto
qed simp_all

lemma sorted_desc_grouped:
  "sorted_wrt (\<lambda>a b. strcmp (v b) (v a) \<le> 0) cs \<Longrightarrow> grouped v cs"
proof (induction v cs rule: grouped.induct)
  case (3 v c r rs)
  have "v c \<noteq> v n" if "v c \<noteq> v r" "n \<in> set rs" for n
  proof
    assume "v c = v n"
    with 3(2) that(2) have "strcmp (v r) (v c) \<le> 0" "strcmp (v c) (v r) \<le> 0" by auto
    with that(1) show False using strcmp_antisym by blast
  qed
  with 3 show ?case by auto
qed simp_all

lemma dedup_scan_grouped:
  "grouped v cs \<Longrightarrow>
   dedup_scan v d cs =
     filter (\<lambda>n. count_list (map v cs) (v n) = 1 \<and> \<not> (d \<and> v n = v (hd cs))) cs"
proof (induction cs arbitrary: d)
  case Nil
  then show ?case by simp
next
  case (Cons c rest)
  show ?case
  proof (cases rest)
    case Nil
    then show ?thesis by simp
  next
    case (Cons r rs)
    note IH = Cons.IH[OF grouped_tl[OF Cons.prems]]
    have pos: "0 < count_list (map v rest) (v n)" if "n \<in> set rest" for n
      using that count_list_0_iff[of "map v rest" "v n"] by auto
    show ?thesis
    proof (cases "v c = v r")
      case True
      have "dedup_scan v d (c # rest) = dedup_scan v True rest"
        using True Cons by (simp add: strcmp_eq_0)
      also have "\<dots> = filter (\<lambda>n. count_list (map v rest) (v n) = 1 \<and> v n \<noteq> v r) rest"
        using IH[of True] Cons by simp
      also have "\<dots> = filter (\<lambda>n. count_list (map v (c # rest)) (v n) = 1 \<and> \<not> (d \<and> v n = v (hd (c # rest)))) rest"
        using True pos by (intro filter_cong) auto
      also have "\<dots> = filter (\<lambda>n. count_list (map v (c # rest)) (v n) = 1 \<and> \<not> (d \<and> v n = v (hd (c # rest)))) (c # rest)"
        using True Cons by simp
      finally show ?thesis .
    next
      case False
      with Cons.prems Cons have nin: "v c \<notin> v ` set rest" by auto
      then have c0: "count_list (map v rest) (v c) = 0" by (simp add: count_list_0_iff)
      have rest_eq: "filter (\<lambda>n. count_list (map v rest) (v n) = 1) rest =
          filter (\<lambda>n. count_list (map v (c # rest)) (v n) = 1 \<and> \<not> (d \<and> v n = v (hd (c # rest)))) rest"
        using nin by (intro filter_cong) auto
      have ns: "\<not> (rest \<noteq> [] \<and> strcmp (v c) (v (hd rest)) = 0)"
        using False Cons by (simp add: strcmp_eq_0)
      show ?thesis
      proof (cases d)
        case True
        have "dedup_scan v d (c # rest) = dedup_scan v False rest"
          by (simp only: dedup_scan.simps ns True if_False if_True)
        also have "\<dots> = filter (\<lambda>n. count_list (map v rest) (v n) = 1) rest"
          using IH[of False] by simp
        finally show ?thesis using rest_eq True by simp
      next
        case False
        have "dedup_scan v d (c # rest) = c # dedup_scan v False rest"
          by (simp only: dedup_scan.simps ns False if_False if_True)
        also have "\<dots> = c # filter (\<lambda>n. count_list (map v rest) (v n) = 1) rest"
          using IH[of False] by simp
        finally show ?thesis using rest_eq False c0 by simp
      qed
    qed
  qed
qed

lemma q_delete_dup_ring:
  assumes "ring h head xs" "xs \<noteq> []"
  shows "\<exists>h'. q_delete_dup head h = Some (True, h') \<and>
           ring h' head (dedup_scan (\<lambda>n. the (val h n)) False xs) \<and>
           val h' = (\<lambda>n. if n \<in> set xs - set (dedup_scan (\<lambda>n. the (val h n)) False xs)
                          then None else val h n) \<and>
           alloc h' = alloc h - (set xs - set (dedup_scan (\<lambda>n. the (val h n)) False xs))"
proof -
  let ?v = "\<lambda>n. the (val h n)"
  from assms(2) obtain c rest where xs: "xs = c # rest" by (cases xs) auto
  have hv: "valid h head" "head \<noteq> 0" using assms(1) by (auto simp: ring_def valid_def)
  have r: "ring h head ([] @ xs)" using assms(1) by simp
  have fst: "nxt h head = c" using ring_head_next[OF assms(1)] xs by simp
  have cv: "valid h c" using assms(1) xs by (auto simp: ring_def)
  have cn: "nxt h c = hd (rest @ [head])" using ring_next[of h head "[]" c rest] assms(1) xs by simp
  have "\<forall>n \<in> set xs. val h n = Some (?v n)" using assms(1) by (auto simp: ring_def)
  from q_delete_dup_loop_ring[OF r this, of c "nxt h c" False] xs cn obtain h' where
    h': "q_delete_dup_loop head c (nxt h c) False h = Some h'"
        "ring h' head (dedup_scan ?v False xs)"
        "val h' = (\<lambda>n. if n \<in> set xs - set (dedup_scan ?v False xs) then None else val h n)"
        "alloc h' = alloc h - (set xs - set (dedup_scan ?v False xs))"
    by auto
  have "q_delete_dup head h = Some (True, h')"
    by (simp add: q_delete_dup_def hv fst cv h'(1) ring_nonempty_not_empty[OF assms])
  then show ?thesis using h'(2,3,4) by (intro exI[of _ h']) simp
qed

lemma ring_sample_5: "length vs = 5 \<Longrightarrow> ring (queue_of vs) 1 [2, 3, 4, 5, 6]"
  by (simp add: ring_def queue_of_def valid_def)

text \<open>
  C7: on a non-empty ring whose strings are sorted (in either direction)
  \<^verbatim>\<open>q_delete_dup\<close> returns true and leaves the ring of exactly the nodes whose string
  occurs once in the input, with their strings: every member of a run of two or more
  equal strings is removed, the last one included.  On the ring "a","a","b","b","c" it
  leaves the single element "c".
\<close>

theorem q_delete_dup_spec:
  "(ring h head xs \<and> xs \<noteq> [] \<and>
      (sorted_wrt (\<lambda>a b. strcmp a b \<le> 0) (strings_of h xs) \<or>
       sorted_wrt (\<lambda>a b. strcmp b a \<le> 0) (strings_of h xs)) \<longrightarrow>
      (\<exists>h'. q_delete_dup head h = Some (True, h') \<and>
         ring h' head (filter (\<lambda>n. count_list (strings_of h xs) (the (val h n)) = 1) xs) \<and>
         (\<forall>n. val h' n = (if n \<in> set xs \<and> count_list (strings_of h xs) (the (val h n)) \<noteq> 1
                          then None else val h n)))) \<and>
   (\<exists>h'. q_delete_dup 1 (queue_of [''a'', ''a'', ''b'', ''b'', ''c'']) = Some (True, h') \<and>
         ring h' 1 [6] \<and> strings_of h' [6] = [''c''])"
proof (intro conjI impI)
  assume a: "ring h head xs \<and> xs \<noteq> [] \<and>
      (sorted_wrt (\<lambda>a b. strcmp a b \<le> 0) (strings_of h xs) \<or>
       sorted_wrt (\<lambda>a b. strcmp b a \<le> 0) (strings_of h xs))"
  let ?v = "\<lambda>n. the (val h n)"
  have g: "grouped ?v xs"
    using a sorted_asc_grouped[of ?v xs] sorted_desc_grouped[of ?v xs]
    by (auto simp: strings_of_def sorted_wrt_map)
  have d: "dedup_scan ?v False xs = filter (\<lambda>n. count_list (strings_of h xs) (?v n) = 1) xs"
    using dedup_scan_grouped[OF g, of False] by (simp add: strings_of_def)
  from a q_delete_dup_ring[of h head xs] obtain h' where
    h': "q_delete_dup head h = Some (True, h')"
        "ring h' head (dedup_scan ?v False xs)"
        "val h' = (\<lambda>n. if n \<in> set xs - set (dedup_scan ?v False xs) then None else val h n)"
    by blast
  show "\<exists>h'. q_delete_dup head h = Some (True, h') \<and>
         ring h' head (filter (\<lambda>n. count_list (strings_of h xs) (the (val h n)) = 1) xs) \<and>
         (\<forall>n. val h' n = (if n \<in> set xs \<and> count_list (strings_of h xs) (the (val h n)) \<noteq> 1
                          then None else val h n))"
    using h' unfolding d by (intro exI[of _ h']) auto
next
  let ?q = "queue_of [''a'', ''a'', ''b'', ''b'', ''c'']"
  have r: "ring ?q 1 [2, 3, 4, 5, 6]" by (rule ring_sample_5) simp
  have k: "dedup_scan (\<lambda>n. the (val ?q n)) False [2, 3, 4, 5, 6] = [6]"
    by (simp add: queue_of_def)
  from q_delete_dup_ring[OF r] obtain h' where
    "q_delete_dup 1 ?q = Some (True, h')" "ring h' 1 [6]"
    "val h' = (\<lambda>n. if n \<in> set [2, 3, 4, 5, 6] - set [6::nat] then None else val ?q n)"
    unfolding k by blast
  moreover from this(3) have "strings_of h' [6] = [''c'']"
    by (simp add: strings_of_def queue_of_def)
  ultimately show "\<exists>h'. q_delete_dup 1 ?q = Some (True, h') \<and> ring h' 1 [6] \<and> strings_of h' [6] = [''c'']"
    by blast
qed

theorem q_delete_dup_spec_witness:
  "ring (queue_of [''x'', ''y'', ''y'', ''z'']) 1 [2, 3, 4, 5] \<and>
   sorted_wrt (\<lambda>a b. strcmp a b \<le> 0) (strings_of (queue_of [''x'', ''y'', ''y'', ''z'']) [2, 3, 4, 5]) \<and>
   (\<exists>h'. q_delete_dup 1 (queue_of [''x'', ''y'', ''y'', ''z'']) = Some (True, h') \<and> ring h' 1 [2, 5])"
proof -
  let ?q = "queue_of [''x'', ''y'', ''y'', ''z'']"
  have r: "ring ?q 1 [2, 3, 4, 5]" by (rule ring_sample_4) simp
  have s: "strings_of ?q [2, 3, 4, 5] = [''x'', ''y'', ''y'', ''z'']"
    by (simp add: strings_of_def queue_of_def)
  have so: "sorted_wrt (\<lambda>a b. strcmp a b \<le> 0) (strings_of ?q [2, 3, 4, 5])"
    unfolding s by simp
  have f: "filter (\<lambda>n. count_list (strings_of ?q [2, 3, 4, 5]) (the (val ?q n)) = 1) [2, 3, 4, 5] = [2, 5]"
    unfolding s by (simp add: queue_of_def)
  from q_delete_dup_spec[of ?q 1 "[2, 3, 4, 5]"] r so
  show ?thesis unfolding f by blast
qed

section \<open>The structural merge sort\<close>

lemma seg_start: "seg f p (x # xs) q \<Longrightarrow> p = x"
  by simp

lemma seg_Nil_iff: "seg f p [] q \<longleftrightarrow> p = q"
  by simp

lemma last_notin_butlast: "distinct xs \<Longrightarrow> xs \<noteq> [] \<Longrightarrow> last xs \<notin> set (butlast xs)"
  by (induction xs) (auto dest: in_set_butlastD)

lemma built_Some: "built f hn (Some c) acc \<longleftrightarrow> (\<exists>bs. acc = bs @ [c] \<and> seg f hn bs c)"
  by (cases acc rule: rev_cases) (auto simp: built_def)

lemma built_None: "built f hn None acc \<longleftrightarrow> acc = []"
  by (simp add: built_def)

lemma built_append_node:
  assumes "built (nxt h) hn cur acc" "distinct (acc @ [a])" "\<forall>n \<in> set acc. valid h n"
  shows "\<exists>hn' h1. cur_set_next cur a (hn, h) = Some (hn', h1) \<and>
           built (nxt h1) hn' (Some a) (acc @ [a]) \<and>
           cur_get_next cur (hn', h1) = Some a \<and>
           (\<forall>n. n \<notin> set acc \<longrightarrow> nxt h1 n = nxt h n) \<and>
           prv h1 = prv h \<and> val h1 = val h \<and> alloc h1 = alloc h"
proof (cases cur)
  case None
  with assms(1) have "acc = []" by (simp add: built_None)
  with None show ?thesis
    by (simp add: cur_set_next_def cur_get_next_def built_Some)
next
  case (Some c)
  with assms(1) obtain bs where c: "acc = bs @ [c]" "seg (nxt h) hn bs c"
    by (auto simp: built_Some)
  have cv: "valid h c" using c assms(3) by simp
  have cn: "c \<notin> set bs" using c assms(2) by simp
  let ?h1 = "h\<lparr>nxt := (nxt h)(c := a)\<rparr>"
  have "seg (nxt ?h1) hn (bs @ [c]) a" using c cn by (simp add: seg_snoc seg_upd)
  then have "built (nxt ?h1) hn (Some a) (acc @ [a])" using c by (simp add: built_Some)
  moreover have "\<forall>n. n \<notin> set acc \<longrightarrow> nxt ?h1 n = nxt h n" using c by auto
  ultimately show ?thesis using Some cv
    by (simp add: cur_set_next_def cur_get_next_def)
qed

lemma built_append_rest:
  assumes "built (nxt h) hn cur acc" "seg (nxt h) p rest 0" "distinct (acc @ rest)"
    "\<forall>n \<in> set acc. valid h n"
  shows "\<exists>r h'. cur_set_next cur p (hn, h) = Some (r, h') \<and>
           seg (nxt h') r (acc @ rest) 0 \<and>
           (\<forall>n. n \<notin> set acc \<longrightarrow> nxt h' n = nxt h n) \<and>
           prv h' = prv h \<and> val h' = val h \<and> alloc h' = alloc h"
proof (cases cur)
  case None
  with assms(1) have "acc = []" by (simp add: built_None)
  with None assms(2) show ?thesis by (simp add: cur_set_next_def)
next
  case (Some c)
  with assms(1) obtain bs where c: "acc = bs @ [c]" "seg (nxt h) hn bs c"
    by (auto simp: built_Some)
  have cv: "valid h c" using c assms(4) by simp
  have cn: "c \<notin> set bs" "c \<notin> set rest" using c assms(3) by auto
  let ?h' = "h\<lparr>nxt := (nxt h)(c := p)\<rparr>"
  have "seg (nxt ?h') hn (bs @ c # rest) 0"
    using c cn assms(2) by (simp add: seg_mid seg_upd)
  then have "seg (nxt ?h') hn (acc @ rest) 0" using c by simp
  moreover have "\<forall>n. n \<notin> set acc \<longrightarrow> nxt ?h' n = nxt h n" using c by auto
  ultimately show ?thesis using Some cv by (simp add: cur_set_next_def)
qed

lemma mergeTwo_loop_chain:
  assumes "seg (nxt h) left L 0" "seg (nxt h) right R 0"
    "distinct (acc @ L @ R)" "0 \<notin> set (L @ R)"
    "\<forall>n \<in> set (acc @ L @ R). valid h n" "\<forall>n \<in> set (L @ R). val h n = Some (v n)"
    "L \<noteq> [] \<or> R \<noteq> []" "built (nxt h) hn cur acc"
  shows "\<exists>r h'. mergeTwo_loop left right cur (hn, h) \<bind> mergeTwo_finish = Some (r, h') \<and>
           seg (nxt h') r (acc @ merge_nodes v L R) 0 \<and>
           (\<forall>n. n \<notin> set (acc @ L @ R) \<longrightarrow> nxt h' n = nxt h n) \<and>
           prv h' = prv h \<and> val h' = val h \<and> alloc h' = alloc h"
  using assms
proof (induction v L R arbitrary: left right acc cur hn h rule: merge_nodes.induct)
  case (1 v r)
  then have l0: "left = 0" and r0: "right \<noteq> 0" "r \<noteq> []"
    by (cases r; auto)+
  have lp: "mergeTwo_loop left right cur (hn, h) = Some (left, right, cur, hn, h)"
    using l0 by (subst mergeTwo_loop.simps) simp
  from built_append_rest[OF 1(8) 1(2)] 1(3,5) obtain r' h' where
    "cur_set_next cur right (hn, h) = Some (r', h')" "seg (nxt h') r' (acc @ r) 0"
    "\<forall>n. n \<notin> set acc \<longrightarrow> nxt h' n = nxt h n"
    "prv h' = prv h" "val h' = val h" "alloc h' = alloc h"
    by auto
  then show ?case using lp l0 r0
    by (intro exI[of _ r'] exI[of _ h']) (simp add: mergeTwo_finish_def)
next
  case (2 v a l)
  then have l0: "left \<noteq> 0" and r0: "right = 0" by auto
  have lp: "mergeTwo_loop left right cur (hn, h) = Some (left, right, cur, hn, h)"
    using r0 by (subst mergeTwo_loop.simps) simp
  from built_append_rest[OF 2(8) 2(1)] 2(3,5) obtain r' h' where
    "cur_set_next cur left (hn, h) = Some (r', h')" "seg (nxt h') r' (acc @ a # l) 0"
    "\<forall>n. n \<notin> set acc \<longrightarrow> nxt h' n = nxt h n"
    "prv h' = prv h" "val h' = val h" "alloc h' = alloc h"
    by auto
  then show ?case using lp l0 r0
    by (intro exI[of _ r'] exI[of _ h']) (simp add: mergeTwo_finish_def)
next
  case (3 v a l b r)
  from 3(3,4,6) have ab: "left = a" "right = b" "a \<noteq> 0" "b \<noteq> 0"
    and sl: "seg (nxt h) (nxt h a) l 0" and sr: "seg (nxt h) (nxt h b) r 0"
    by auto
  have va: "valid h a" "valid h b" "val h a = Some (v a)" "val h b = Some (v b)"
    using 3(7,8) by auto
  show ?case
  proof (cases "strcmp (v a) (v b) < 0")
    case True
    have d: "distinct (acc @ [a])" using 3(5) by simp
    have vacc: "\<forall>n \<in> set acc. valid h n" using 3(7) by simp
    from built_append_node[OF 3(10) d vacc] obtain hn' h1 where
      h1: "cur_set_next cur a (hn, h) = Some (hn', h1)"
          "built (nxt h1) hn' (Some a) (acc @ [a])"
          "cur_get_next cur (hn', h1) = Some a"
          "\<forall>n. n \<notin> set acc \<longrightarrow> nxt h1 n = nxt h n"
          "prv h1 = prv h" "val h1 = val h" "alloc h1 = alloc h"
      by blast
    have same: "\<And>xs p q. set xs \<inter> set acc = {} \<Longrightarrow> seg (nxt h1) p xs q = seg (nxt h) p xs q"
    proof -
      fix xs p q assume "set xs \<inter> set acc = {}"
      then show "seg (nxt h1) p xs q = seg (nxt h) p xs q"
        using h1(4) by (induction xs arbitrary: p) auto
    qed
    have an: "nxt h1 a = nxt h a" using h1(4) 3(5) by auto
    have v1: "\<And>n. valid h1 n = valid h n" by (simp add: valid_def h1(7))
    have "\<exists>r' h'. mergeTwo_loop (nxt h a) b (Some a) (hn', h1) \<bind> mergeTwo_finish = Some (r', h') \<and>
           seg (nxt h') r' ((acc @ [a]) @ merge_nodes v l (b # r)) 0 \<and>
           (\<forall>n. n \<notin> set ((acc @ [a]) @ l @ b # r) \<longrightarrow> nxt h' n = nxt h1 n) \<and>
           prv h' = prv h1 \<and> val h' = val h1 \<and> alloc h' = alloc h1"
    proof (rule "3.IH"(1)[OF True])
      show "seg (nxt h1) (nxt h a) l 0" using sl same[of l] 3(5) by auto
      show "seg (nxt h1) b (b # r) 0" using 3(4) same[of "b # r"] 3(5) ab by auto
      show "distinct ((acc @ [a]) @ l @ b # r)" using 3(5) by auto
      show "0 \<notin> set (l @ b # r)" using 3(6) by auto
      show "\<forall>n\<in>set ((acc @ [a]) @ l @ b # r). valid h1 n" using 3(7) v1 by auto
      show "\<forall>n\<in>set (l @ b # r). val h1 n = Some (v n)" using 3(8) h1(6) by auto
      show "l \<noteq> [] \<or> b # r \<noteq> []" by simp
      show "built (nxt h1) hn' (Some a) (acc @ [a])" by (rule h1(2))
    qed
    then obtain r' h' where
      h': "mergeTwo_loop (nxt h a) b (Some a) (hn', h1) \<bind> mergeTwo_finish = Some (r', h')"
          "seg (nxt h') r' ((acc @ [a]) @ merge_nodes v l (b # r)) 0"
          "\<forall>n. n \<notin> set ((acc @ [a]) @ l @ b # r) \<longrightarrow> nxt h' n = nxt h1 n"
          "prv h' = prv h1" "val h' = val h1" "alloc h' = alloc h1"
      by blast
    have lp: "mergeTwo_loop left right cur (hn, h) = mergeTwo_loop (nxt h a) b (Some a) (hn', h1)"
      unfolding ab
      by (subst mergeTwo_loop.simps) (simp add: ab va True h1(1,3) v1 an)
    show ?thesis
      unfolding lp using h' h1(4,5,6,7) True
      by (intro exI[of _ r'] exI[of _ h']) auto
  next
    case False
    have d: "distinct (acc @ [b])" using 3(5) by simp
    have vacc: "\<forall>n \<in> set acc. valid h n" using 3(7) by simp
    from built_append_node[OF 3(10) d vacc] obtain hn' h1 where
      h1: "cur_set_next cur b (hn, h) = Some (hn', h1)"
          "built (nxt h1) hn' (Some b) (acc @ [b])"
          "cur_get_next cur (hn', h1) = Some b"
          "\<forall>n. n \<notin> set acc \<longrightarrow> nxt h1 n = nxt h n"
          "prv h1 = prv h" "val h1 = val h" "alloc h1 = alloc h"
      by blast
    have same: "\<And>xs p q. set xs \<inter> set acc = {} \<Longrightarrow> seg (nxt h1) p xs q = seg (nxt h) p xs q"
    proof -
      fix xs p q assume "set xs \<inter> set acc = {}"
      then show "seg (nxt h1) p xs q = seg (nxt h) p xs q"
        using h1(4) by (induction xs arbitrary: p) auto
    qed
    have bn: "nxt h1 b = nxt h b" using h1(4) 3(5) by auto
    have v1: "\<And>n. valid h1 n = valid h n" by (simp add: valid_def h1(7))
    have "\<exists>r' h'. mergeTwo_loop a (nxt h b) (Some b) (hn', h1) \<bind> mergeTwo_finish = Some (r', h') \<and>
           seg (nxt h') r' ((acc @ [b]) @ merge_nodes v (a # l) r) 0 \<and>
           (\<forall>n. n \<notin> set ((acc @ [b]) @ (a # l) @ r) \<longrightarrow> nxt h' n = nxt h1 n) \<and>
           prv h' = prv h1 \<and> val h' = val h1 \<and> alloc h' = alloc h1"
    proof (rule "3.IH"(2)[OF False])
      show "seg (nxt h1) a (a # l) 0" using 3(3) same[of "a # l"] 3(5) ab by auto
      show "seg (nxt h1) (nxt h b) r 0" using sr same[of r] 3(5) by auto
      show "distinct ((acc @ [b]) @ (a # l) @ r)" using 3(5) by auto
      show "0 \<notin> set ((a # l) @ r)" using 3(6) by auto
      show "\<forall>n\<in>set ((acc @ [b]) @ (a # l) @ r). valid h1 n" using 3(7) v1 by auto
      show "\<forall>n\<in>set ((a # l) @ r). val h1 n = Some (v n)" using 3(8) h1(6) by auto
      show "a # l \<noteq> [] \<or> r \<noteq> []" by simp
      show "built (nxt h1) hn' (Some b) (acc @ [b])" by (rule h1(2))
    qed
    then obtain r' h' where
      h': "mergeTwo_loop a (nxt h b) (Some b) (hn', h1) \<bind> mergeTwo_finish = Some (r', h')"
          "seg (nxt h') r' ((acc @ [b]) @ merge_nodes v (a # l) r) 0"
          "\<forall>n. n \<notin> set ((acc @ [b]) @ (a # l) @ r) \<longrightarrow> nxt h' n = nxt h1 n"
          "prv h' = prv h1" "val h' = val h1" "alloc h' = alloc h1"
      by blast
    have lp: "mergeTwo_loop left right cur (hn, h) = mergeTwo_loop a (nxt h b) (Some b) (hn', h1)"
      unfolding ab
      by (subst mergeTwo_loop.simps) (simp add: ab va False h1(1,3) v1 bn)
    show ?thesis
      unfolding lp using h' h1(4,5,6,7) False
      by (intro exI[of _ r'] exI[of _ h']) auto
  qed
qed

lemma mergeTwo_as_loop:
  "left \<noteq> 0 \<or> right \<noteq> 0 \<Longrightarrow>
   mergeTwo left right h = mergeTwo_loop left right None (0, h) \<bind> mergeTwo_finish"
  unfolding mergeTwo_def mergeTwo_finish_def
  by (auto intro!: Option.bind_cong split: prod.splits)

lemma mergeTwo_chain:
  assumes "seg (nxt h) left L 0" "seg (nxt h) right R 0"
    "distinct (L @ R)" "0 \<notin> set (L @ R)"
    "\<forall>n \<in> set (L @ R). valid h n" "\<forall>n \<in> set (L @ R). val h n = Some (v n)"
    "L \<noteq> [] \<or> R \<noteq> []"
  shows "\<exists>r h'. mergeTwo left right h = Some (r, h') \<and>
           seg (nxt h') r (merge_nodes v L R) 0 \<and>
           (\<forall>n. n \<notin> set (L @ R) \<longrightarrow> nxt h' n = nxt h n) \<and>
           prv h' = prv h \<and> val h' = val h \<and> alloc h' = alloc h"
proof -
  have nz: "left \<noteq> 0 \<or> right \<noteq> 0"
    using assms(1,2,4,7) by (cases L; cases R) auto
  have b: "built (nxt h) 0 None []" by (simp add: built_None)
  from mergeTwo_loop_chain[of h left L right R "[]" v 0 None] assms b
  show ?thesis unfolding mergeTwo_as_loop[OF nz] by simp
qed

text \<open>The slow pointer stops in the middle.\<close>

lemma q_mergeSort_split_chain:
  assumes "seg (nxt h) slow ys 0" "seg (nxt h) fast zs 0" "0 \<notin> set zs"
    "\<forall>n \<in> set ys \<union> set zs. valid h n" "length zs < length ys"
  shows "q_mergeSort_split slow fast h = Some (ys ! (length zs div 2))"
  using assms
proof (induction zs arbitrary: slow fast ys rule: induct_list012)
  case 1
  then show ?case by (cases ys) (auto simp: q_mergeSort_split.simps)
next
  case (2 z)
  then have "fast = z" "z \<noteq> 0" "nxt h z = 0" "valid h z" by auto
  then show ?case using 2 by (cases ys) (auto simp: q_mergeSort_split.simps)
next
  case (3 z1 z2 zs)
  then have f: "fast = z1" "z1 \<noteq> 0" "nxt h z1 = z2" "z2 \<noteq> 0" "valid h z1" "valid h z2"
    and sz: "seg (nxt h) (nxt h z2) zs 0"
    by auto
  from 3(3,7) obtain y ys' where ys: "ys = y # ys'" "slow = y" "seg (nxt h) (nxt h y) ys' 0"
    by (cases ys) auto
  have vy: "valid h y" using 3(6) ys by simp
  have "q_mergeSort_split (nxt h y) (nxt h z2) h = Some (ys' ! (length zs div 2))"
    using 3(1)[OF ys(3) sz] 3(5,6,7) ys by auto
  moreover have "q_mergeSort_split slow fast h = q_mergeSort_split (nxt h y) (nxt h z2) h"
    by (subst q_mergeSort_split.simps) (simp add: f ys vy)
  ultimately show ?case using ys by simp
qed

lemma seg_cong: "(\<And>n. n \<in> set xs \<Longrightarrow> f n = g n) \<Longrightarrow> seg f p xs q = seg g p xs q"
  by (induction xs arbitrary: p) auto

lemma mset_merge_nodes: "mset (merge_nodes v l r) = mset l + mset r"
  by (induction v l r rule: merge_nodes.induct) auto

lemma mset_msort_nodes: "mset (msort_nodes v xs) = mset xs"
proof (induction v xs rule: msort_nodes.induct)
  case (1 v xs)
  show ?case
  proof (cases "length xs \<le> 1")
    case True
    then show ?thesis by (simp add: msort_nodes.simps)
  next
    case False
    let ?k = "Suc ((length xs - 1) div 2)"
    have "mset (msort_nodes v xs) = mset (take ?k xs) + mset (drop ?k xs)"
      using False 1 by (subst msort_nodes.simps) (simp add: mset_merge_nodes)
    also have "\<dots> = mset (take ?k xs @ drop ?k xs)" by (simp only: mset_append)
    finally show ?thesis by simp
  qed
qed

lemma set_msort_nodes [simp]: "set (msort_nodes v xs) = set xs"
  using mset_msort_nodes[of v xs] by (rule mset_eq_setD)

lemma distinct_msort_nodes [simp]: "distinct (msort_nodes v xs) = distinct xs"
  using mset_msort_nodes[of v xs] by (rule mset_eq_imp_distinct_iff)

lemma msort_nodes_Nil_iff [simp]: "msort_nodes v xs = [] \<longleftrightarrow> xs = []"
  using mset_msort_nodes[of v xs] by (metis mset_zero_iff)

lemma q_mergeSort_chain:
  assumes "seg (nxt h) p xs 0" "xs \<noteq> []" "distinct xs" "0 \<notin> set xs"
    "\<forall>n \<in> set xs. valid h n" "\<forall>n \<in> set xs. val h n = Some (v n)"
  shows "\<exists>r h'. q_mergeSort p h = Some (r, h') \<and>
           seg (nxt h') r (msort_nodes v xs) 0 \<and>
           (\<forall>n. n \<notin> set xs \<longrightarrow> nxt h' n = nxt h n) \<and>
           prv h' = prv h \<and> val h' = val h \<and> alloc h' = alloc h"
  using assms
proof (induction xs arbitrary: p h rule: length_induct)
  case (1 xs)
  note IH = 1(1)[rule_format] and prems = 1(2-)
  from prems(1,2) obtain x xs' where xs: "xs = x # xs'" "p = x" "seg (nxt h) (nxt h x) xs' 0"
    by (cases xs) auto
  have vx: "valid h x" using prems(5) xs by simp
  show ?case
  proof (cases xs')
    case Nil
    with xs have "nxt h x = 0" by simp
    then have "q_mergeSort p h = Some (p, h)"
      using xs vx by (subst q_mergeSort.simps) simp
    moreover have "msort_nodes v xs = xs" using xs Nil by (simp add: msort_nodes.simps)
    ultimately show ?thesis using prems(1) by simp
  next
    case (Cons x2 xs'')
    let ?n = "length xs"
    let ?k = "Suc ((?n - 1) div 2)"
    let ?L = "take ?k xs" and ?R = "drop ?k xs"
    have n2: "2 \<le> ?n" using xs Cons by simp
    then have k: "?k < ?n" "0 < ?k" by auto
    have hn: "nxt h x = x2" "x2 \<noteq> 0" using xs Cons prems(4) by auto
    have sp: "q_mergeSort_split p (nxt h x) h = Some (xs ! (length xs' div 2))"
      using q_mergeSort_split_chain[OF prems(1) xs(3)] prems(4,5) xs by auto
    define slow where "slow = xs ! (?k - 1)"
    have sp': "q_mergeSort_split p x2 h = Some slow"
      using sp hn xs by (simp add: slow_def)
    have L: "?L = take (?k - 1) xs @ [slow]"
      using k by (metis Suc_diff_1 Suc_lessD slow_def take_Suc_conv_app_nth)
    have xsplit: "xs = take (?k - 1) xs @ slow # ?R"
      using L by (metis append.assoc append_Cons append_Nil append_take_drop_id)
    have slow_in: "slow \<in> set xs" "slow \<notin> set (take (?k - 1) xs)" "slow \<notin> set ?R"
      using prems(3) xsplit by (metis in_set_conv_decomp, metis distinct_append not_distinct_conv_prefix disjoint_iff distinct.simps(2) list.set_intros(1),
          metis distinct_append distinct.simps(2))
    have vs: "valid h slow" using prems(5) slow_in by simp
    have segs: "seg (nxt h) p (take (?k - 1) xs) slow" "seg (nxt h) (nxt h slow) ?R 0"
      using prems(1) by (subst (asm) xsplit, simp add: seg_mid)+
    define mid where "mid = nxt h slow"
    define h1 where "h1 = h\<lparr>nxt := (nxt h)(slow := 0)\<rparr>"
    have sL: "seg (nxt h1) p ?L 0"
      unfolding L h1_def using segs(1) slow_in by (simp add: seg_snoc seg_upd)
    have sR: "seg (nxt h1) mid ?R 0"
      unfolding h1_def mid_def using segs(2) slow_in by (simp add: seg_upd)
    have dLR: "distinct ?L" "distinct ?R" "set ?L \<inter> set ?R = {}" "set ?L \<union> set ?R = set xs"
      using prems(3) by (simp_all add: set_take_disj_set_drop_if_distinct)
        (metis append_take_drop_id set_append)
    have LRne: "?L \<noteq> []" "?R \<noteq> []" using k by auto
    have lenL: "length ?L < length xs" and lenR: "length ?R < length xs" using k by auto
    have inL: "\<And>n. n \<in> set ?L \<Longrightarrow> n \<in> set xs" and inR: "\<And>n. n \<in> set ?R \<Longrightarrow> n \<in> set xs"
      by (auto dest: in_set_takeD in_set_dropD)
    have "\<exists>r h'. q_mergeSort p h1 = Some (r, h') \<and>
           seg (nxt h') r (msort_nodes v ?L) 0 \<and>
           (\<forall>n. n \<notin> set ?L \<longrightarrow> nxt h' n = nxt h1 n) \<and>
           prv h' = prv h1 \<and> val h' = val h1 \<and> alloc h' = alloc h1"
      using prems(4,5,6) inL
      by (intro IH[OF lenL sL LRne(1) dLR(1)]) (auto simp: h1_def valid_def)
    then obtain left h2 where
      h2: "q_mergeSort p h1 = Some (left, h2)" "seg (nxt h2) left (msort_nodes v ?L) 0"
          "\<forall>n. n \<notin> set ?L \<longrightarrow> nxt h2 n = nxt h1 n"
          "prv h2 = prv h1" "val h2 = val h1" "alloc h2 = alloc h1"
      by blast
    have sR2: "seg (nxt h2) mid ?R 0"
      using sR h2(3) dLR(3) seg_cong[of ?R "nxt h2" "nxt h1" mid 0] by auto
    have "\<exists>r h'. q_mergeSort mid h2 = Some (r, h') \<and>
           seg (nxt h') r (msort_nodes v ?R) 0 \<and>
           (\<forall>n. n \<notin> set ?R \<longrightarrow> nxt h' n = nxt h2 n) \<and>
           prv h' = prv h2 \<and> val h' = val h2 \<and> alloc h' = alloc h2"
      using prems(4,5,6) inR h2(5,6)
      by (intro IH[OF lenR sR2 LRne(2) dLR(2)]) (auto simp: h1_def valid_def)
    then obtain right h3 where
      h3: "q_mergeSort mid h2 = Some (right, h3)" "seg (nxt h3) right (msort_nodes v ?R) 0"
          "\<forall>n. n \<notin> set ?R \<longrightarrow> nxt h3 n = nxt h2 n"
          "prv h3 = prv h2" "val h3 = val h2" "alloc h3 = alloc h2"
      by blast
    have sL3: "seg (nxt h3) left (msort_nodes v ?L) 0"
      using h2(2) h3(3) dLR(3) seg_cong[of "msort_nodes v ?L" "nxt h3" "nxt h2" left 0] by auto
    have "\<exists>r h'. mergeTwo left right h3 = Some (r, h') \<and>
           seg (nxt h') r (merge_nodes v (msort_nodes v ?L) (msort_nodes v ?R)) 0 \<and>
           (\<forall>n. n \<notin> set (msort_nodes v ?L @ msort_nodes v ?R) \<longrightarrow> nxt h' n = nxt h3 n) \<and>
           prv h' = prv h3 \<and> val h' = val h3 \<and> alloc h' = alloc h3"
      using prems(4,5,6) inL inR dLR LRne h2(5,6) h3(5,6)
      by (intro mergeTwo_chain[OF sL3 h3(2)]) (auto simp: h1_def valid_def)
    then obtain r h' where
      h': "mergeTwo left right h3 = Some (r, h')"
          "seg (nxt h') r (merge_nodes v (msort_nodes v ?L) (msort_nodes v ?R)) 0"
          "\<forall>n. n \<notin> set (msort_nodes v ?L @ msort_nodes v ?R) \<longrightarrow> nxt h' n = nxt h3 n"
          "prv h' = prv h3" "val h' = val h3" "alloc h' = alloc h3"
      by blast
    have ms: "msort_nodes v xs = merge_nodes v (msort_nodes v ?L) (msort_nodes v ?R)"
      using n2 by (subst msort_nodes.simps) simp
    have hnp: "nxt h p = x2" and vp: "valid h p" using hn vx xs(2) by simp_all
    have call: "q_mergeSort p h = Some (r, h')"
      by (subst q_mergeSort.simps)
         (simp add: hnp hn(2) vp sp' vs mid_def[symmetric] h1_def[symmetric] h2(1) h3(1) h'(1))
    have frame: "\<forall>n. n \<notin> set xs \<longrightarrow> nxt h' n = nxt h n"
      using h'(3) h3(3) h2(3) dLR(4) slow_in(1) by (auto simp: h1_def)
    show ?thesis
      unfolding ms using call h'(2) frame h'(4,5,6) h3(4,5,6) h2(4,5,6)
      by (intro exI[of _ r] exI[of _ h']) (simp add: h1_def)
  qed
qed

lemma q_sort_relink_chain:
  assumes "seg (nxt h) nex ys 0" "0 \<notin> set ys" "distinct ys" "\<forall>n \<in> set ys. valid h n"
  shows "\<exists>h'. q_sort_relink cur nex h = Some (last (cur # ys), h') \<and>
           seg (prv h') (last (cur # ys)) (rev ys) cur \<and>
           (\<forall>n. n \<notin> set ys \<longrightarrow> prv h' n = prv h n) \<and>
           nxt h' = nxt h \<and> val h' = val h \<and> alloc h' = alloc h"
  using assms
proof (induction ys arbitrary: cur nex h)
  case Nil
  then show ?case by (subst q_sort_relink.simps) simp
next
  case (Cons y ys)
  then have y: "nex = y" "y \<noteq> 0" "valid h y" "y \<notin> set ys" and s: "seg (nxt h) (nxt h y) ys 0"
    by auto
  define h1 where "h1 = h\<lparr>prv := (prv h)(y := cur)\<rparr>"
  have "\<exists>h'. q_sort_relink y (nxt h y) h1 = Some (last (y # ys), h') \<and>
           seg (prv h') (last (y # ys)) (rev ys) y \<and>
           (\<forall>n. n \<notin> set ys \<longrightarrow> prv h' n = prv h1 n) \<and>
           nxt h' = nxt h1 \<and> val h' = val h1 \<and> alloc h' = alloc h1"
    using Cons.prems s by (intro Cons.IH) (auto simp: h1_def valid_def)
  then obtain h' where
    h': "q_sort_relink y (nxt h y) h1 = Some (last (y # ys), h')"
        "seg (prv h') (last (y # ys)) (rev ys) y"
        "\<forall>n. n \<notin> set ys \<longrightarrow> prv h' n = prv h1 n"
        "nxt h' = nxt h1" "val h' = val h1" "alloc h' = alloc h1"
    by blast
  have py: "prv h' y = cur" using h'(3) y(4) by (simp add: h1_def)
  have v1: "valid h1 y" using y(3) by (simp add: h1_def valid_def)
  have n1: "nxt h1 y = nxt h y" by (simp add: h1_def)
  have call: "q_sort_relink cur nex h = Some (last (y # ys), h')"
    unfolding y(1)
    by (subst q_sort_relink.simps) (simp add: y(2,3) h1_def[symmetric] v1 n1 h'(1))
  have "seg (prv h') (last (cur # y # ys)) (rev (y # ys)) cur"
    using h'(2) py by (simp add: seg_snoc)
  moreover have "\<forall>n. n \<notin> set (y # ys) \<longrightarrow> prv h' n = prv h n"
    using h'(3) by (auto simp: h1_def)
  ultimately show ?case using call h'(4,5,6)
    by (intro exI[of _ h']) (simp add: h1_def)
qed

lemma q_sort_ring:
  assumes "ring h head xs"
  shows "\<exists>h'. q_sort head descend h = Some h' \<and>
           ring h' head (msort_nodes (\<lambda>n. the (val h n)) xs) \<and>
           val h' = val h \<and> alloc h' = alloc h"
proof (cases "xs = []")
  case True
  have "head \<noteq> 0" using assms by (auto simp: ring_def valid_def)
  moreover have m: "msort_nodes (\<lambda>n. the (val h n)) [] = []" by (simp add: msort_nodes.simps)
  ultimately show ?thesis
    using assms True ring_empty_empty[of h head] by (simp add: q_sort_def m)
next
  case False
  let ?v = "\<lambda>n. the (val h n)"
  let ?ys = "msort_nodes ?v xs"
  from False obtain bs l where xs: "xs = bs @ [l]" by (cases xs rule: rev_cases) auto
  have hv: "valid h head" "head \<noteq> 0" "head \<notin> set xs" "distinct xs" "0 \<notin> set xs"
    "\<forall>n \<in> set xs. valid h n" "\<forall>n \<in> set xs. val h n = Some (?v n)"
    using assms by (auto simp: ring_def valid_def)
  have lst: "prv h head = l" using ring_head_prev[OF assms] xs by simp
  have lv: "valid h l" "l \<noteq> head" "l \<notin> set bs" using hv xs by auto
  have fst: "nxt h head = hd xs" using ring_head_next[OF assms] False by (cases xs) auto
  define h1 where "h1 = h\<lparr>nxt := (nxt h)(l := 0)\<rparr>"
  have "seg (nxt h) (nxt h head) (bs @ [l]) head" using assms xs by (simp add: ring_def)
  then have s1: "seg (nxt h1) (hd xs) xs 0"
    unfolding xs h1_def using lv fst xs by (simp add: seg_snoc seg_upd)
  have f1: "nxt h1 head = hd xs" using fst lv by (simp add: h1_def)
  have "\<exists>r h'. q_mergeSort (hd xs) h1 = Some (r, h') \<and>
           seg (nxt h') r ?ys 0 \<and>
           (\<forall>n. n \<notin> set xs \<longrightarrow> nxt h' n = nxt h1 n) \<and>
           prv h' = prv h1 \<and> val h' = val h1 \<and> alloc h' = alloc h1"
    using hv by (intro q_mergeSort_chain[OF s1 False]) (auto simp: h1_def valid_def)
  then obtain sorted h2 where
    h2: "q_mergeSort (hd xs) h1 = Some (sorted, h2)" "seg (nxt h2) sorted ?ys 0"
        "\<forall>n. n \<notin> set xs \<longrightarrow> nxt h2 n = nxt h1 n"
        "prv h2 = prv h1" "val h2 = val h1" "alloc h2 = alloc h1"
    by blast
  have al: "alloc h2 = alloc h" "val h2 = val h" "prv h2 = prv h" using h2 by (simp_all add: h1_def)
  have val2: "\<And>n. valid h2 n = valid h n" by (simp add: valid_def al)
  define h3 where "h3 = h2\<lparr>nxt := (nxt h2)(head := sorted)\<rparr>"
  have s3: "seg (nxt h3) sorted ?ys 0" using h2(2) hv(3) by (simp add: h3_def seg_upd)
  have "\<exists>h'. q_sort_relink head sorted h3 = Some (last (head # ?ys), h') \<and>
           seg (prv h') (last (head # ?ys)) (rev ?ys) head \<and>
           (\<forall>n. n \<notin> set ?ys \<longrightarrow> prv h' n = prv h3 n) \<and>
           nxt h' = nxt h3 \<and> val h' = val h3 \<and> alloc h' = alloc h3"
    using hv val2 by (intro q_sort_relink_chain[OF s3]) (auto simp: h3_def valid_def)
  then obtain h4 where
    h4: "q_sort_relink head sorted h3 = Some (last (head # ?ys), h4)"
        "seg (prv h4) (last (head # ?ys)) (rev ?ys) head"
        "nxt h4 = nxt h3" "val h4 = val h3" "alloc h4 = alloc h3"
    by blast
  have yne: "?ys \<noteq> []" using False by simp
  then obtain cs c where ys: "?ys = cs @ [c]" by (cases ?ys rule: rev_cases) auto
  have c: "last (head # ?ys) = c" "c \<in> set xs" "c \<notin> set cs" "c \<noteq> head" "valid h c"
    using ys hv set_msort_nodes[of ?v xs] distinct_msort_nodes[of ?v xs] by auto
  have al4: "alloc h4 = alloc h" "val h4 = val h" using h4 al by (simp_all add: h3_def)
  have val4: "\<And>n. valid h4 n = valid h n" by (simp add: valid_def al4)
  define h5 where "h5 = h4\<lparr>nxt := (nxt h4)(c := head)\<rparr>"
  define h6 where "h6 = h5\<lparr>prv := (prv h5)(head := c)\<rparr>"
  have vh: "valid h1 head" "valid h2 head" "valid h3 head" "valid h4 c" "valid h5 head"
    using hv(1) c(5) by (simp_all add: valid_def h1_def al h3_def al4 h5_def)
  have e: "get_prev h head = Some l" "set_next l 0 h = Some h1" "get_next h1 head = Some (hd xs)"
    "set_next head sorted h2 = Some h3" "get_next h3 head = Some sorted"
    "q_sort_relink head sorted h3 = Some (c, h4)"
    "set_next c head h4 = Some h5" "set_prev head c h5 = Some h6"
    using hv(1) lst lv(1) f1 vh h4(1) c(1)
    by (simp_all add: h1_def[symmetric] h3_def[symmetric] h5_def[symmetric] h6_def[symmetric])
       (simp add: h3_def)
  have call: "q_sort head descend h = Some h6"
    using hv(2) by (simp add: q_sort_def ring_nonempty_not_empty[OF assms False] e h2(1))
  have hdcs: "head \<notin> set cs" "head \<notin> set ?ys" using hv(3) ys set_msort_nodes[of ?v xs] by auto
  have "seg (nxt h3) sorted cs c" using s3 ys by (simp add: seg_snoc)
  then have n6: "seg (nxt h6) head (head # ?ys) head"
    unfolding ys using c hdcs
    by (simp add: h6_def h5_def h4(3) h3_def seg_snoc seg_upd)
  have p6: "seg (prv h6) head (head # rev ?ys) head"
    using h4(2) c(1) hdcs ys by (simp add: h6_def h5_def seg_upd)
  have "ring h6 head ?ys"
    unfolding ring_def using n6 p6 hv
    by (auto simp: h6_def h5_def valid_def al4)
  then show ?thesis using call by (intro exI[of _ h6]) (simp add: h6_def h5_def al4)
qed

section \<open>Reversal\<close>

lemma swap_links_step:
  "r \<notin> S \<Longrightarrow>
   (swap_links h S)\<lparr>nxt := (nxt (swap_links h S))(r := prv h r),
                     prv := (prv (swap_links h S))(r := nxt h r)\<rparr> = swap_links h (insert r S)"
  by (auto simp: swap_links_def fun_eq_iff)

lemma q_reverse_loop_ring:
  assumes "ring h0 head (ps @ rs)"
  shows "q_reverse_loop head (last (head # ps)) (hd (rs @ [head])) (hd (rs @ [head]))
           (swap_links h0 (set (head # ps))) = Some (swap_links h0 (set (head # ps @ rs)))"
  using assms
proof (induction rs arbitrary: ps)
  case Nil
  then show ?case by (subst q_reverse_loop.simps) simp
next
  case (Cons r rs)
  define pre where "pre = last (head # ps)"
  define nx where "nx = hd (rs @ [head])"
  define hS where "hS = swap_links h0 (set (head # ps))"
  define h2 where "h2 = swap_links h0 (set (head # (ps @ [r])))"
  define final where "final = swap_links h0 (set (head # ps @ r # rs))"
  have r: "r \<noteq> head" "valid h0 r" "r \<notin> set (head # ps)"
    using Cons.prems by (auto simp: ring_def)
  have links: "nxt h0 r = nx" "prv h0 r = pre"
    using ring_next[OF Cons.prems] ring_prev[OF Cons.prems] by (simp_all add: nx_def pre_def)
  have vr: "valid hS r" using r(2) by (simp add: hS_def swap_links_def valid_def)
  have nr: "nxt hS r = nx" using r(3) links by (simp add: hS_def swap_links_def)
  have st: "hS\<lparr>nxt := (nxt hS)(r := pre), prv := (prv hS)(r := nx)\<rparr> = h2"
    using swap_links_step[of r "set (head # ps)" h0] r(3) links
    by (simp add: insert_commute hS_def h2_def)
  from Cons.IH[of "ps @ [r]"] Cons.prems
  have IH: "q_reverse_loop head r nx nx h2 = Some final"
    by (simp add: nx_def h2_def final_def)
  have "q_reverse_loop head pre r r hS = Some final"
    by (subst q_reverse_loop.simps) (simp add: r(1) vr nr st IH)
  then show ?case by (simp add: pre_def hS_def final_def)
qed

lemma q_reverse_ring:
  assumes "ring h head xs"
  shows "\<exists>h'. q_reverse head h = Some h' \<and> ring h' head (rev xs) \<and>
           val h' = val h \<and> alloc h' = alloc h"
proof (cases "xs = []")
  case True
  have "head \<noteq> 0" using assms by (auto simp: ring_def valid_def)
  then show ?thesis using assms True ring_empty_empty[of h head] by (simp add: q_reverse_def)
next
  case False
  have hv: "valid h head" "head \<noteq> 0" using assms by (auto simp: ring_def valid_def)
  have links: "nxt h head = hd (xs @ [head])" "prv h head = last (head # xs)"
    using ring_head_next[OF assms] ring_head_prev[OF assms] by simp_all
  have h1: "h\<lparr>nxt := (nxt h)(head := prv h head), prv := (prv h)(head := nxt h head)\<rparr> =
      swap_links h {head}"
    by (auto simp: swap_links_def fun_eq_iff)
  from q_reverse_loop_ring[of h head "[]" xs] assms
  have lp: "q_reverse_loop head head (nxt h head) (nxt h head) (swap_links h {head}) =
      Some (swap_links h (set (head # xs)))"
    by (simp add: links(1))
  have first: "q_reverse_loop head (prv h head) head 0 h =
      q_reverse_loop head head (nxt h head) (nxt h head) (swap_links h {head})"
    by (subst q_reverse_loop.simps) (simp add: hv h1)
  have call: "q_reverse head h = Some (swap_links h (set (head # xs)))"
    using hv by (simp add: q_reverse_def ring_nonempty_not_empty[OF assms False] first lp)
  let ?h' = "swap_links h (set (head # xs))"
  have "seg (nxt ?h') head (head # rev xs) head"
    using assms seg_cong[of "head # rev xs" "nxt ?h'" "prv h" head head]
    by (auto simp: ring_def swap_links_def)
  moreover have "seg (prv ?h') head (head # rev (rev xs)) head"
    using assms seg_cong[of "head # xs" "prv ?h'" "nxt h" head head]
    by (auto simp: ring_def swap_links_def)
  ultimately have "ring ?h' head (rev xs)"
    using assms by (auto simp: ring_def valid_def swap_links_def)
  then show ?thesis using call by (intro exI[of _ ?h']) (simp add: swap_links_def)
qed

section \<open>What \<^verbatim>\<open>q_sort\<close> computes\<close>

lemma set_merge_nodes [simp]: "set (merge_nodes v l r) = set l \<union> set r"
  using mset_merge_nodes[of v l r] by (metis set_mset_mset set_mset_union)

lemma sorted_merge_nodes:
  assumes "sorted_wrt (\<lambda>a b. strcmp (v a) (v b) \<le> 0) l" "sorted_wrt (\<lambda>a b. strcmp (v a) (v b) \<le> 0) r"
  shows "sorted_wrt (\<lambda>a b. strcmp (v a) (v b) \<le> 0) (merge_nodes v l r)"
  using assms
proof (induction v l r rule: merge_nodes.induct)
  case (3 v a l b r)
  show ?case
  proof (cases "strcmp (v a) (v b) < 0")
    case True
    then have "strcmp (v a) (v b) \<le> 0" by simp
    then have "\<forall>y \<in> set (b # r). strcmp (v a) (v y) \<le> 0"
      using 3(4) strcmp_le_trans[of "v a" "v b"] by auto
    with True 3 show ?thesis by auto
  next
    case False
    then have "strcmp (v b) (v a) \<le> 0" using strcmp_swap[of "v a" "v b"] by simp
    then have "\<forall>y \<in> set (a # l). strcmp (v b) (v y) \<le> 0"
      using 3(3) strcmp_le_trans[of "v b" "v a"] by auto
    with False 3 show ?thesis by auto
  qed
qed simp_all

lemma sorted_msort_nodes: "sorted_wrt (\<lambda>a b. strcmp (v a) (v b) \<le> 0) (msort_nodes v xs)"
proof (induction v xs rule: msort_nodes.induct)
  case (1 v xs)
  show ?case
  proof (cases "length xs \<le> 1")
    case True
    then show ?thesis by (cases xs) (auto simp: msort_nodes.simps)
  next
    case False
    with 1 show ?thesis by (subst msort_nodes.simps) (simp add: sorted_merge_nodes)
  qed
qed

text \<open>
  Whatever \<open>descend\<close> is, \<^verbatim>\<open>q_sort\<close> leaves a ring of the same nodes, with the same
  strings, in non-decreasing order of \<^verbatim>\<open>strcmp\<close>.
\<close>

lemma q_sort_ascending:
  assumes "ring h head xs"
  shows "\<exists>h' ys. q_sort head descend h = Some h' \<and> ring h' head ys \<and> mset ys = mset xs \<and>
           val h' = val h \<and> alloc h' = alloc h \<and>
           sorted_wrt (\<lambda>a b. strcmp a b \<le> 0) (strings_of h' ys)"
proof -
  let ?ys = "msort_nodes (\<lambda>n. the (val h n)) xs"
  from q_sort_ring[OF assms] obtain h' where
    h': "q_sort head descend h = Some h'" "ring h' head ?ys" "val h' = val h" "alloc h' = alloc h"
    by blast
  have "sorted_wrt (\<lambda>a b. strcmp a b \<le> 0) (strings_of h' ?ys)"
    using sorted_msort_nodes[of "\<lambda>n. the (val h n)" xs]
    by (simp add: strings_of_def sorted_wrt_map h'(3))
  with h' show ?thesis by (intro exI[of _ h'] exI[of _ ?ys]) (simp add: mset_msort_nodes)
qed

lemma q_sort_eval_ab:
  "(case q_sort 1 True (queue_of [''a'', ''b'']) of None \<Rightarrow> False
    | Some h' \<Rightarrow> map (nxt h') [1, 2, 3] = [2, 3, 1] \<and> map (val h') [2, 3] = [Some ''a'', Some ''b''])"
  by code_simp

lemma q_sort_eval_aa:
  "(case q_sort 1 False (queue_of [''a'', ''a'']) of None \<Rightarrow> False
    | Some h' \<Rightarrow> map (nxt h') [1, 2, 3] = [3, 1, 2] \<and> map (val h') [2, 3] = [Some ''a'', Some ''a''])"
  by code_simp

lemma mergeTwo_eval_tie:
  "(case mergeTwo 2 3 ((queue_of [''a'', ''a''])\<lparr>nxt := (\<lambda>_. 0)\<rparr>) of None \<Rightarrow> False
    | Some (r, h') \<Rightarrow> r = 3 \<and> nxt h' 3 = 2 \<and> nxt h' 2 = 0)"
  by code_simp

text \<open>
  C1: \<^verbatim>\<open>q_sort\<close> never reads \<open>descend\<close>: both values of the flag give the same
  result, and with \<open>descend\<close> true the ring "a","b" comes out as "a","b", in strictly
  increasing order, where the claim asks for a non-increasing one.
\<close>

theorem q_sort_descend_unread:
  "q_sort head True h = q_sort head False h \<and>
   (\<exists>h'. q_sort 1 True (queue_of [''a'', ''b'']) = Some h' \<and>
      nxt h' 1 = 2 \<and> nxt h' 2 = 3 \<and> nxt h' 3 = 1 \<and>
      val h' 2 = Some ''a'' \<and> val h' 3 = Some ''b'' \<and> strcmp ''a'' ''b'' < 0)"
proof
  show "q_sort head True h = q_sort head False h" by (simp add: q_sort_def)
  show "\<exists>h'. q_sort 1 True (queue_of [''a'', ''b'']) = Some h' \<and>
      nxt h' 1 = 2 \<and> nxt h' 2 = 3 \<and> nxt h' 3 = 1 \<and>
      val h' 2 = Some ''a'' \<and> val h' 3 = Some ''b'' \<and> strcmp ''a'' ''b'' < 0"
    using q_sort_eval_ab by (cases "q_sort 1 True (queue_of [''a'', ''b''])") auto
qed

text \<open>
  C3: on equal strings \<^verbatim>\<open>mergeTwo\<close> takes the head of the right chain, not of the left
  one, and \<^verbatim>\<open>q_sort\<close> is not stable: on the ring of two elements with the string "a",
  at addresses 2 and 3 in this order, it leaves the ring 3, 2.
\<close>

theorem q_sort_unstable:
  "(\<exists>h'. mergeTwo 2 3 ((queue_of [''a'', ''a''])\<lparr>nxt := (\<lambda>_. 0)\<rparr>) = Some (3, h') \<and>
      nxt h' 3 = 2 \<and> nxt h' 2 = 0) \<and>
   (\<exists>h'. q_sort 1 False (queue_of [''a'', ''a'']) = Some h' \<and>
      nxt h' 1 = 3 \<and> nxt h' 3 = 2 \<and> nxt h' 2 = 1 \<and>
      val h' 2 = Some ''a'' \<and> val h' 3 = Some ''a'')"
proof
  show "\<exists>h'. mergeTwo 2 3 ((queue_of [''a'', ''a''])\<lparr>nxt := (\<lambda>_. 0)\<rparr>) = Some (3, h') \<and>
      nxt h' 3 = 2 \<and> nxt h' 2 = 0"
    using mergeTwo_eval_tie
    by (cases "mergeTwo 2 3 ((queue_of [''a'', ''a''])\<lparr>nxt := (\<lambda>_. 0)\<rparr>)") auto
  show "\<exists>h'. q_sort 1 False (queue_of [''a'', ''a'']) = Some h' \<and>
      nxt h' 1 = 3 \<and> nxt h' 3 = 2 \<and> nxt h' 2 = 1 \<and>
      val h' 2 = Some ''a'' \<and> val h' 3 = Some ''a''"
    using q_sort_eval_aa by (cases "q_sort 1 False (queue_of [''a'', ''a''])") auto
qed

section \<open>The sizes of the pending runs\<close>

lemma length_merge_runs [simp]: "length (merge_runs cmp as bs) = length as + length bs"
  by (induction cmp as bs rule: merge_runs.induct) auto

lemma mset_merge_runs [simp]: "mset (merge_runs cmp as bs) = mset as + mset bs"
  by (induction cmp as bs rule: merge_runs.induct) auto

lemma set_merge_runs [simp]: "set (merge_runs cmp as bs) = set as \<union> set bs"
  by (induction cmp as bs rule: merge_runs.induct) auto

lemma map_length_merge_at: "map length (merge_at cmp bits rs) = combine bits (map length rs)"
  by (induction cmp bits rs rule: merge_at.induct) (auto split: list.splits)

lemma combine_scale: "combine bits (map ((*) 2) ss) = map ((*) 2) (combine bits ss)"
  by (induction bits ss rule: combine.induct) (auto split: list.splits)

lemma pending_sizes_0 [simp]: "pending_sizes 0 = []"
  by (simp add: pending_sizes.simps)

lemma pending_sizes_hd: "0 < n \<Longrightarrow> \<exists>ss. pending_sizes n = 1 # ss"
  by (subst pending_sizes.simps) auto

lemma pending_sizes_step: "1 # combine n (pending_sizes n) = pending_sizes (Suc n)"
proof (induction n rule: less_induct)
  case (less n)
  show ?case
  proof (cases "n = 0")
    case True
    then show ?thesis by (simp add: pending_sizes.simps[of "Suc 0"])
  next
    case False
    let ?m = "n div 2"
    show ?thesis
    proof (cases "n mod 2 = 1")
      case True
      then have n: "pending_sizes n = 1 # map ((*) 2) (pending_sizes ?m)"
        using False by (subst pending_sizes.simps) simp
      have sm: "Suc n mod 2 = 0" "Suc n div 2 = Suc ?m" using True by presburger+
      have IH: "1 # combine ?m (pending_sizes ?m) = pending_sizes (Suc ?m)"
        using less[of ?m] False by simp
      have "pending_sizes (Suc n) = 1 # 1 # map ((*) 2) (tl (pending_sizes (Suc ?m)))"
        using sm by (subst pending_sizes.simps) simp
      also have "\<dots> = 1 # 1 # map ((*) 2) (combine ?m (pending_sizes ?m))"
        using IH[symmetric] by simp
      finally show ?thesis using n True by (simp add: combine_scale)
    next
      case odd: False
      then have ev: "n mod 2 = 0" by presburger
      have m0: "0 < ?m" using False ev by presburger
      then obtain ss where m: "pending_sizes ?m = 1 # ss" using pending_sizes_hd by blast
      have n: "pending_sizes n = 1 # 1 # map ((*) 2) ss"
        using False ev m by (subst pending_sizes.simps) simp
      have sm: "Suc n mod 2 = 1" "Suc n div 2 = ?m" using ev by presburger+
      have "pending_sizes (Suc n) = 1 # map ((*) 2) (pending_sizes ?m)"
        using sm by (subst pending_sizes.simps) simp
      then show ?thesis using n m ev False by simp
    qed
  qed
qed

lemma slots_ok_pending_sizes: "slots_ok n (length (pending_sizes n))"
proof (induction n rule: less_induct)
  case (less n)
  show ?case
  proof (cases "n = 0")
    case True
    then show ?thesis by simp
  next
    case False
    show ?thesis
    proof (cases "n mod 2 = 1")
      case True
      have "slots_ok (n div 2) (length (pending_sizes (n div 2)))" using less[of "n div 2"] False by simp
      then show ?thesis using True False by (subst pending_sizes.simps) simp
    next
      case False
      then show ?thesis by (subst pending_sizes.simps) simp
    qed
  qed
qed

lemma pending_sizes_odd: "n mod 2 = 1 \<Longrightarrow> pending_sizes n = 1 # map ((*) 2) (pending_sizes (n div 2))"
  by (subst pending_sizes.simps) auto

lemma pending_sizes_even:
  "0 < n \<Longrightarrow> n mod 2 = 0 \<Longrightarrow> pending_sizes n = 1 # 1 # map ((*) 2) (tl (pending_sizes (n div 2)))"
  by (subst pending_sizes.simps) auto

lemma pending_sizes_cases [case_names zero odd even]:
  fixes n :: nat
  assumes "n = 0 \<Longrightarrow> P" "\<lbrakk>n mod 2 = 1; n div 2 < n\<rbrakk> \<Longrightarrow> P"
    "\<lbrakk>0 < n; n mod 2 = 0; n div 2 < n; 0 < n div 2\<rbrakk> \<Longrightarrow> P"
  shows P
proof (cases "n = 0")
  case True
  then show P by (rule assms(1))
next
  case False
  show P
  proof (cases "n mod 2 = 1")
    case True
    moreover have "n div 2 < n" using False by presburger
    ultimately show P by (rule assms(2))
  next
    case odd: False
    have "0 < n" "n mod 2 = 0" "n div 2 < n" "0 < n div 2" using False odd by presburger+
    then show P by (rule assms(3))
  qed
qed

lemma in_set_tl: "x \<in> set (tl xs) \<Longrightarrow> x \<in> set xs"
  by (cases xs) auto

lemma sum_pending_sizes: "sum_list (pending_sizes n) = n"
proof (induction n rule: less_induct)
  case (less n)
  show ?case
  proof (cases n rule: pending_sizes_cases)
    case zero
    then show ?thesis by simp
  next
    case odd
    have "sum_list (map ((*) 2) (pending_sizes (n div 2))) = 2 * (n div 2)"
      using less[OF odd(2)] by (simp add: sum_list_const_mult)
    then show ?thesis using odd by (simp add: pending_sizes_odd) presburger
  next
    case even
    obtain ss where ss: "pending_sizes (n div 2) = 1 # ss" using pending_sizes_hd[OF even(4)] by blast
    have "sum_list (1 # ss) = n div 2" using less[OF even(3)] ss by simp
    then have "sum_list (map ((*) 2) ss) = 2 * (n div 2 - 1)"
      by (simp add: sum_list_const_mult)
    then show ?thesis using even ss by (simp add: pending_sizes_even) presburger
  qed
qed

lemma pending_sizes_pow2: "s \<in> set (pending_sizes n) \<Longrightarrow> \<exists>k. s = 2 ^ k"
proof (induction n arbitrary: s rule: less_induct)
  case (less n)
  show ?case
  proof (cases n rule: pending_sizes_cases)
    case zero
    with less.prems show ?thesis by simp
  next
    case odd
    from less.prems odd consider "s = 1" | t where "t \<in> set (pending_sizes (n div 2))" "s = 2 * t"
      by (auto simp: pending_sizes_odd)
    then show ?thesis
    proof cases
      case 1
      then show ?thesis by (intro exI[of _ 0]) simp
    next
      case 2
      from less.IH[OF odd(2) 2(1)] obtain k where "t = 2 ^ k" by blast
      with 2 show ?thesis by (intro exI[of _ "Suc k"]) simp
    qed
  next
    case even
    from less.prems even consider "s = 1" | t where "t \<in> set (tl (pending_sizes (n div 2)))" "s = 2 * t"
      by (auto simp: pending_sizes_even)
    then show ?thesis
    proof cases
      case 1
      then show ?thesis by (intro exI[of _ 0]) simp
    next
      case 2
      then have "t \<in> set (pending_sizes (n div 2))" by (simp add: in_set_tl)
      from less.IH[OF even(3) this] obtain k where "t = 2 ^ k" by blast
      with 2 show ?thesis by (intro exI[of _ "Suc k"]) simp
    qed
  qed
qed

lemma pending_sizes_pos: "s \<in> set (pending_sizes n) \<Longrightarrow> 0 < s"
  using pending_sizes_pow2 by fastforce

lemma sorted_map_double: "sorted ss \<Longrightarrow> sorted (map ((*) (2::nat)) ss)"
  by (induction ss) auto

lemma sorted_pending_sizes: "sorted (pending_sizes n)"
proof (induction n rule: less_induct)
  case (less n)
  show ?case
  proof (cases n rule: pending_sizes_cases)
    case zero
    then show ?thesis by simp
  next
    case odd
    have "\<forall>t \<in> set (pending_sizes (n div 2)). 1 \<le> 2 * t" using pending_sizes_pos by fastforce
    then show ?thesis using less[OF odd(2)] odd by (auto simp: pending_sizes_odd sorted_map_double)
  next
    case even
    have "\<forall>t \<in> set (tl (pending_sizes (n div 2))). 1 \<le> 2 * t"
      using pending_sizes_pos in_set_tl by fastforce
    moreover have "sorted (tl (pending_sizes (n div 2)))" using less[OF even(3)] by (simp add: sorted_tl)
    ultimately show ?thesis using even by (auto simp: pending_sizes_even sorted_map_double)
  qed
qed

lemma count_list_double:
  "count_list (map ((*) (2::nat)) ss) s = (if s mod 2 = 0 then count_list ss (s div 2) else 0)"
proof (induction ss)
  case Nil
  then show ?case by simp
next
  case (Cons t ss)
  have "2 * t = s \<longleftrightarrow> s mod 2 = 0 \<and> t = s div 2" by presburger
  with Cons show ?case by auto
qed

lemma count_list_tl_le: "count_list (tl ss) s \<le> count_list ss s"
  by (cases ss) auto

lemma pending_sizes_at_most_two: "count_list (pending_sizes n) s \<le> 2"
proof (induction n arbitrary: s rule: less_induct)
  case (less n)
  show ?case
  proof (cases n rule: pending_sizes_cases)
    case zero
    then show ?thesis by simp
  next
    case odd
    then show ?thesis using less[OF odd(2), of "s div 2"]
      by (auto simp: pending_sizes_odd count_list_double)
  next
    case even
    have "count_list (tl (pending_sizes (n div 2))) (s div 2) \<le> 2"
      using less[OF even(3), of "s div 2"] count_list_tl_le[of "pending_sizes (n div 2)" "s div 2"]
      by linarith
    then show ?thesis using even
      by (auto simp: pending_sizes_even count_list_double)
  qed
qed

lemma length_concat_sizes: "length (concat rs) = sum_list (map length rs)"
  by (induction rs) auto

lemma pending_runs_snoc:
  "pending_runs cmp (xs @ [x]) = [x] # merge_at cmp (length (concat (pending_runs cmp xs))) (pending_runs cmp xs)"
  by (simp add: pending_runs_def)

lemma pending_runs_sizes: "map length (pending_runs cmp xs) = pending_sizes (length xs)"
proof (induction xs rule: rev_induct)
  case Nil
  then show ?case by (simp add: pending_runs_def)
next
  case (snoc x xs)
  have "length (concat (pending_runs cmp xs)) = length xs"
    using snoc by (simp add: length_concat_sizes sum_pending_sizes)
  then show ?case
    using snoc pending_sizes_step[of "length xs"]
    by (simp add: pending_runs_snoc map_length_merge_at)
qed

lemma pending_runs_length_concat: "length (concat (pending_runs cmp xs)) = length xs"
  by (simp add: length_concat_sizes pending_runs_sizes sum_pending_sizes)

section \<open>The natural merge sort on the heap\<close>

lemma store_tail_eq: "store_tail = cur_set_next"
  by (intro ext) (simp add: store_tail_def cur_set_next_def)

lemma seg_same_outside:
  "(\<And>n. n \<notin> S \<Longrightarrow> f n = g n) \<Longrightarrow> set xs \<inter> S = {} \<Longrightarrow> seg f p xs q = seg g p xs q"
  by (rule seg_cong) auto

lemma seg_chain_next:
  "seg f p (x # xs) 0 \<Longrightarrow> 0 \<notin> set xs \<Longrightarrow> (f x = 0 \<longleftrightarrow> xs = []) \<and> seg f (f x) xs 0"
  by (cases xs) auto

lemma merge_loop_chain:
  assumes "seg (nxt h) a A 0" "seg (nxt h) b B 0" "A \<noteq> []" "B \<noteq> []"
    "distinct (acc @ A @ B)" "0 \<notin> set (A @ B)"
    "\<forall>n \<in> set (acc @ A @ B). valid h n" "built (nxt h) hn tail acc"
  shows "\<exists>r h'. merge_loop cmp a b tail (hn, h) = Some (r, h') \<and>
           seg (nxt h') r (acc @ merge_runs cmp A B) 0 \<and>
           (\<forall>n. n \<notin> set (acc @ A @ B) \<longrightarrow> nxt h' n = nxt h n) \<and>
           prv h' = prv h \<and> val h' = val h \<and> alloc h' = alloc h"
  using assms
proof (induction cmp A B arbitrary: a b acc tail hn h rule: merge_runs.induct)
  case (1 cmp bs)
  then show ?case by simp
next
  case (2 cmp as)
  then show ?case by simp
next
  case (3 cmp x as y bs)
  from 3(3,4,8) have ab: "a = x" "b = y"
    and sa: "(nxt h x = 0 \<longleftrightarrow> as = []) \<and> seg (nxt h) (nxt h x) as 0"
    and sb: "(nxt h y = 0 \<longleftrightarrow> bs = []) \<and> seg (nxt h) (nxt h y) bs 0"
    using seg_chain_next[of "nxt h" a x as] seg_chain_next[of "nxt h" b y bs] by auto
  have vxy: "valid h x" "valid h y" using 3(9) by auto
  have vacc: "\<forall>n \<in> set acc. valid h n" using 3(9) by simp
  have cc: "call_cmp cmp h x y = Some (cmp x y)" using vxy by (simp add: call_cmp_def)
  show ?case
  proof (cases "cmp x y \<le> 0")
    case True
    have d: "distinct (acc @ [x])" using 3(7) by simp
    from built_append_node[OF 3(10) d vacc] obtain hn' h1 where
      h1: "cur_set_next tail x (hn, h) = Some (hn', h1)"
          "built (nxt h1) hn' (Some x) (acc @ [x])"
          "\<forall>n. n \<notin> set acc \<longrightarrow> nxt h1 n = nxt h n"
          "prv h1 = prv h" "val h1 = val h" "alloc h1 = alloc h"
      by blast
    have v1: "\<And>n. valid h1 n = valid h n" by (simp add: valid_def h1(6))
    have xn: "nxt h1 x = nxt h x" using h1(3) 3(7) by auto
    have sy1: "seg (nxt h1) y (y # bs) 0"
      using 3(4) ab seg_same_outside[of "set acc" "nxt h1" "nxt h" "y # bs" y 0] h1(3) 3(7) by auto
    show ?thesis
    proof (cases "as = []")
      case as: True
      have d2: "distinct ((acc @ [x]) @ y # bs)" using 3(7) as by auto
      have vacc2: "\<forall>n \<in> set (acc @ [x]). valid h1 n" using vacc vxy v1 by auto
      from built_append_rest[OF h1(2) sy1 d2 vacc2] obtain r h' where
        h': "cur_set_next (Some x) y (hn', h1) = Some (r, h')"
            "seg (nxt h') r ((acc @ [x]) @ y # bs) 0"
            "\<forall>n. n \<notin> set (acc @ [x]) \<longrightarrow> nxt h' n = nxt h1 n"
            "prv h' = prv h1" "val h' = val h1" "alloc h' = alloc h1"
        by blast
      have call: "merge_loop cmp a b tail (hn, h) = Some (r, h')"
        unfolding ab
        by (subst merge_loop.simps) (simp add: cc True store_tail_eq h1(1) v1 vxy xn sa as h'(1))
      show ?thesis
        using call h' h1(3,4,5,6) True as by (intro exI[of _ r] exI[of _ h']) auto
    next
      case as: False
      have sx1: "seg (nxt h1) (nxt h x) as 0"
        using sa seg_same_outside[of "set acc" "nxt h1" "nxt h" as "nxt h x" 0] h1(3) 3(7) by auto
      have "\<exists>r h'. merge_loop cmp (nxt h x) y (Some x) (hn', h1) = Some (r, h') \<and>
           seg (nxt h') r ((acc @ [x]) @ merge_runs cmp as (y # bs)) 0 \<and>
           (\<forall>n. n \<notin> set ((acc @ [x]) @ as @ y # bs) \<longrightarrow> nxt h' n = nxt h1 n) \<and>
           prv h' = prv h1 \<and> val h' = val h1 \<and> alloc h' = alloc h1"
      proof (rule "3.IH"(1)[OF True sx1 sy1 as])
        show "y # bs \<noteq> []" by simp
        show "distinct ((acc @ [x]) @ as @ y # bs)" using 3(7) by auto
        show "0 \<notin> set (as @ y # bs)" using 3(8) by auto
        show "\<forall>n\<in>set ((acc @ [x]) @ as @ y # bs). valid h1 n" using 3(9) v1 by auto
        show "built (nxt h1) hn' (Some x) (acc @ [x])" by (rule h1(2))
      qed
      then obtain r h' where
        h': "merge_loop cmp (nxt h x) y (Some x) (hn', h1) = Some (r, h')"
            "seg (nxt h') r ((acc @ [x]) @ merge_runs cmp as (y # bs)) 0"
            "\<forall>n. n \<notin> set ((acc @ [x]) @ as @ y # bs) \<longrightarrow> nxt h' n = nxt h1 n"
            "prv h' = prv h1" "val h' = val h1" "alloc h' = alloc h1"
        by blast
      have call: "merge_loop cmp a b tail (hn, h) = Some (r, h')"
        unfolding ab
        by (subst merge_loop.simps) (simp add: cc True store_tail_eq h1(1) v1 vxy xn sa as h'(1))
      show ?thesis
        using call h' h1(3,4,5,6) True by (intro exI[of _ r] exI[of _ h']) auto
    qed
  next
    case False
    have d: "distinct (acc @ [y])" using 3(7) by simp
    from built_append_node[OF 3(10) d vacc] obtain hn' h1 where
      h1: "cur_set_next tail y (hn, h) = Some (hn', h1)"
          "built (nxt h1) hn' (Some y) (acc @ [y])"
          "\<forall>n. n \<notin> set acc \<longrightarrow> nxt h1 n = nxt h n"
          "prv h1 = prv h" "val h1 = val h" "alloc h1 = alloc h"
      by blast
    have v1: "\<And>n. valid h1 n = valid h n" by (simp add: valid_def h1(6))
    have yn: "nxt h1 y = nxt h y" using h1(3) 3(7) by auto
    have sx1: "seg (nxt h1) x (x # as) 0"
      using 3(3) ab seg_same_outside[of "set acc" "nxt h1" "nxt h" "x # as" x 0] h1(3) 3(7) by auto
    show ?thesis
    proof (cases "bs = []")
      case bs: True
      have d2: "distinct ((acc @ [y]) @ x # as)" using 3(7) bs by auto
      have vacc2: "\<forall>n \<in> set (acc @ [y]). valid h1 n" using vacc vxy v1 by auto
      from built_append_rest[OF h1(2) sx1 d2 vacc2] obtain r h' where
        h': "cur_set_next (Some y) x (hn', h1) = Some (r, h')"
            "seg (nxt h') r ((acc @ [y]) @ x # as) 0"
            "\<forall>n. n \<notin> set (acc @ [y]) \<longrightarrow> nxt h' n = nxt h1 n"
            "prv h' = prv h1" "val h' = val h1" "alloc h' = alloc h1"
        by blast
      have call: "merge_loop cmp a b tail (hn, h) = Some (r, h')"
        unfolding ab
        by (subst merge_loop.simps) (simp add: cc False store_tail_eq h1(1) v1 vxy yn sb bs h'(1))
      show ?thesis
        using call h' h1(3,4,5,6) False bs by (intro exI[of _ r] exI[of _ h']) auto
    next
      case bs: False
      have sy1: "seg (nxt h1) (nxt h y) bs 0"
        using sb seg_same_outside[of "set acc" "nxt h1" "nxt h" bs "nxt h y" 0] h1(3) 3(7) by auto
      have "\<exists>r h'. merge_loop cmp x (nxt h y) (Some y) (hn', h1) = Some (r, h') \<and>
           seg (nxt h') r ((acc @ [y]) @ merge_runs cmp (x # as) bs) 0 \<and>
           (\<forall>n. n \<notin> set ((acc @ [y]) @ (x # as) @ bs) \<longrightarrow> nxt h' n = nxt h1 n) \<and>
           prv h' = prv h1 \<and> val h' = val h1 \<and> alloc h' = alloc h1"
      proof (rule "3.IH"(2)[OF False sx1 sy1 _ bs])
        show "x # as \<noteq> []" by simp
        show "distinct ((acc @ [y]) @ (x # as) @ bs)" using 3(7) by auto
        show "0 \<notin> set ((x # as) @ bs)" using 3(8) by auto
        show "\<forall>n\<in>set ((acc @ [y]) @ (x # as) @ bs). valid h1 n" using 3(9) v1 by auto
        show "built (nxt h1) hn' (Some y) (acc @ [y])" by (rule h1(2))
      qed
      then obtain r h' where
        h': "merge_loop cmp x (nxt h y) (Some y) (hn', h1) = Some (r, h')"
            "seg (nxt h') r ((acc @ [y]) @ merge_runs cmp (x # as) bs) 0"
            "\<forall>n. n \<notin> set ((acc @ [y]) @ (x # as) @ bs) \<longrightarrow> nxt h' n = nxt h1 n"
            "prv h' = prv h1" "val h' = val h1" "alloc h' = alloc h1"
        by blast
      have call: "merge_loop cmp a b tail (hn, h) = Some (r, h')"
        unfolding ab
        by (subst merge_loop.simps) (simp add: cc False store_tail_eq h1(1) v1 vxy yn sb bs h'(1))
      show ?thesis
        using call h' h1(3,4,5,6) False by (intro exI[of _ r] exI[of _ h']) auto
    qed
  qed
qed

lemma merge_chain:
  assumes "seg (nxt h) a A 0" "seg (nxt h) b B 0" "A \<noteq> []" "B \<noteq> []"
    "distinct (A @ B)" "0 \<notin> set (A @ B)" "\<forall>n \<in> set (A @ B). valid h n"
  shows "\<exists>r h'. merge cmp a b h = Some (r, h') \<and>
           seg (nxt h') r (merge_runs cmp A B) 0 \<and>
           (\<forall>n. n \<notin> set (A @ B) \<longrightarrow> nxt h' n = nxt h n) \<and>
           prv h' = prv h \<and> val h' = val h \<and> alloc h' = alloc h"
  using merge_loop_chain[of h a A b B "[]" 0 None cmp] assms
  by (simp add: merge_def built_None)

lemma pstack_cong:
  "(\<And>n. n \<in> set (concat rs) \<Longrightarrow> nxt h' n = nxt h n \<and> prv h' n = prv h n) \<Longrightarrow>
   pstack h' p rs = pstack h p rs"
proof (induction rs arbitrary: p)
  case Nil
  then show ?case by simp
next
  case (Cons r rs)
  have s: "seg (nxt h') p r 0 = seg (nxt h) p r 0"
    using Cons.prems by (intro seg_cong) auto
  have t: "\<And>q. pstack h' q rs = pstack h q rs" using Cons by auto
  show ?case
  proof (cases "r \<noteq> [] \<and> seg (nxt h) p r 0")
    case True
    then have "p \<in> set r" by (cases r) auto
    then have "prv h' p = prv h p" using Cons.prems by auto
    then show ?thesis using s t by simp
  next
    case False
    then show ?thesis using s by auto
  qed
qed

lemma pstack_head: "pstack h p (r # rs) \<Longrightarrow> p = hd r \<and> p \<in> set r \<and> p \<noteq> 0"
  by (cases r) auto

lemma slot_walk_merge:
  assumes "load_slot tail (pending, h) = Some p" "pstack h p rs" "slots_ok bits (length rs)"
    "distinct (concat rs)" "\<forall>n \<in> set (concat rs). valid h n"
    "case tail of None \<Rightarrow> True | Some q \<Rightarrow> q \<notin> set (concat rs) \<and> valid h q"
  shows "\<exists>pending' h' p'. list_sort_bits bits tail (pending, h) \<bind> (\<lambda>bt. round_merge cmp bt (pending, h))
             = Some (pending', h') \<and>
           load_slot tail (pending', h') = Some p' \<and> pstack h' p' (merge_at cmp bits rs) \<and>
           (\<forall>n. n \<notin> set (concat rs) \<longrightarrow> nxt h' n = nxt h n \<and> (tail \<noteq> Some n \<longrightarrow> prv h' n = prv h n)) \<and>
           (tail \<noteq> None \<longrightarrow> pending' = pending) \<and> val h' = val h \<and> alloc h' = alloc h"
  using assms
proof (induction cmp bits rs arbitrary: tail p rule: merge_at.induct)
  case (1 cmp bits)
  then have "bits = 0" by simp
  then show ?case using 1
    by (subst list_sort_bits.simps) (simp add: round_merge_def)
next
  case (2 cmp bits r rs)
  note ph = pstack_head[OF "2.prems"(2)]
  have r: "r \<noteq> []" "0 \<notin> set r" "seg (nxt h) p r 0" "pstack h (prv h p) rs"
    using "2.prems"(2) by simp_all
  have vp: "valid h p" using ph "2.prems"(5) by auto
  show ?case
  proof (cases "bits mod 2 = 1")
    case True
    have so: "slots_ok (bits div 2) (length rs)" using "2.prems"(3) True by simp
    have ld: "load_slot (Some p) (pending, h) = Some (prv h p)" using vp by (simp add: load_slot_def)
    have tl': "case Some p of None \<Rightarrow> True | Some q \<Rightarrow> q \<notin> set (concat rs) \<and> valid h q"
      using ph "2.prems"(4) vp by auto
    from "2.IH"[OF True ld r(4) so _ _ tl'] "2.prems"(4,5)
    obtain pending' h' p' where
      h': "list_sort_bits (bits div 2) (Some p) (pending, h) \<bind> (\<lambda>bt. round_merge cmp bt (pending, h))
             = Some (pending', h')"
          "load_slot (Some p) (pending', h') = Some p'" "pstack h' p' (merge_at cmp (bits div 2) rs)"
          "\<forall>n. n \<notin> set (concat rs) \<longrightarrow> nxt h' n = nxt h n \<and> (Some p \<noteq> Some n \<longrightarrow> prv h' n = prv h n)"
          "pending' = pending" "val h' = val h" "alloc h' = alloc h"
      by auto
    have v': "\<And>n. valid h' n = valid h n" by (simp add: valid_def h'(7))
    have pp: "prv h' p = p'" using h'(2) vp v' by (simp add: load_slot_def)
    have bitsstep: "list_sort_bits bits tail (pending, h) = list_sort_bits (bits div 2) (Some p) (pending, h)"
      by (subst list_sort_bits.simps) (simp add: True "2.prems"(1))
    have disj: "set r \<inter> set (concat rs) = {}" using "2.prems"(4) by auto
    have segr: "seg (nxt h') p r 0"
      using r(3) seg_same_outside[of "set (concat rs)" "nxt h'" "nxt h" r p 0] h'(4) disj by auto
    have ps: "pstack h' p (merge_at cmp bits (r # rs))"
      using True r(1,2) segr pp h'(3) by simp
    have ld': "load_slot tail (pending', h') = Some p"
    proof (cases tail)
      case None
      then show ?thesis using "2.prems"(1) h'(5) by (simp add: load_slot_def)
    next
      case (Some q)
      then have q: "q \<notin> set (concat rs)" "q \<notin> set r" "valid h q" "prv h q = p"
        using "2.prems"(1,6) by (auto simp: load_slot_def get_prev_def split: if_splits)
      then have "q \<noteq> p" using ph by auto
      then have "prv h' q = p" using h'(4) q by auto
      then show ?thesis using Some q v' by (simp add: load_slot_def)
    qed
    have frame: "\<forall>n. n \<notin> set (concat (r # rs)) \<longrightarrow> nxt h' n = nxt h n \<and> (tail \<noteq> Some n \<longrightarrow> prv h' n = prv h n)"
      using h'(4) ph by auto
    show ?thesis
      unfolding bitsstep using h'(1) ld' ps frame h'(5,6,7)
      by (intro exI[of _ pending'] exI[of _ h'] exI[of _ p]) simp
  next
    case even: False
    have nb: "list_sort_bits bits tail (pending, h) = Some (bits, tail)"
      using even by (subst list_sort_bits.simps) auto
    show ?thesis
    proof (cases "bits = 0")
      case True
      then show ?thesis using "2.prems"(1,2) nb even
        by (intro exI[of _ pending] exI[of _ h] exI[of _ p]) (simp add: round_merge_def)
    next
      case False
      with "2.prems"(3) even obtain br rs' where rs: "rs = br # rs'" by (cases rs) auto
      note phb = pstack_head[OF r(4)[unfolded rs]]
      define pb where "pb = prv h p"
      have b: "br \<noteq> []" "0 \<notin> set br" "seg (nxt h) pb br 0" "pstack h (prv h pb) rs'"
        using r(4) rs by (simp_all add: pb_def)
      have vb: "valid h pb" using phb "2.prems"(5) rs by (auto simp: pb_def)
      have dis: "distinct (br @ r)" "0 \<notin> set (br @ r)" "\<forall>n \<in> set (br @ r). valid h n"
        using "2.prems"(4,5) rs r(2) b(2) by auto
      from merge_chain[OF b(3) r(3) b(1) r(1) dis, of cmp] obtain m h1 where
        h1: "merge cmp pb p h = Some (m, h1)" "seg (nxt h1) m (merge_runs cmp br r) 0"
            "\<forall>n. n \<notin> set (br @ r) \<longrightarrow> nxt h1 n = nxt h n"
            "prv h1 = prv h" "val h1 = val h" "alloc h1 = alloc h"
        by blast
      define bp where "bp = prv h pb"
      define M where "M = merge_runs cmp br r"
      have "length M = length br + length r" by (simp add: M_def)
      then have mne: "M \<noteq> []" using b(1) by auto
      have M: "M \<noteq> []" "0 \<notin> set M" "set M = set br \<union> set r" "seg (nxt h1) m M 0"
        using mne dis(2) h1(2) by (auto simp: M_def)
      have mM: "m \<in> set M" using M(1,4) by (cases M) auto
      have m: "m \<in> set (br @ r)" "m \<noteq> 0"
      proof -
        show "m \<in> set (br @ r)" using mM unfolding M(3) by simp
        show "m \<noteq> 0"
        proof
          assume "m = 0"
          with mM M(2) show False by simp
        qed
      qed
      define h2 where "h2 = h1\<lparr>prv := (prv h1)(m := bp)\<rparr>"
      have v1: "\<And>n. valid h1 n = valid h n" by (simp add: valid_def h1(6))
      have vm: "valid h m" using m dis(3) by blast
      have rest: "set (concat rs') \<inter> set (br @ r) = {}" using "2.prems"(4) rs by auto
      have ev: "load_slot tail (pending, h) = Some p" "get_prev h p = Some pb"
        "get_prev h1 pb = Some bp" "set_prev m bp h1 = Some h2"
        using "2.prems"(1) vp vb vm v1 by (simp_all add: pb_def bp_def h1(4) h2_def)
      have rm: "round_merge cmp (bits, tail) (pending, h) = store_slot tail m (pending, h2)"
        using False by (simp add: round_merge_def ev h1(1))
      have ps2: "\<And>hx :: heap. nxt hx = nxt h1 \<Longrightarrow> prv hx m = bp \<Longrightarrow>
          (\<forall>n. n \<in> set (concat rs') \<longrightarrow> prv hx n = prv h n) \<Longrightarrow> pstack hx m (M # rs')"
      proof -
        fix hx :: heap assume hx: "nxt hx = nxt h1" "prv hx m = bp" "\<forall>n. n \<in> set (concat rs') \<longrightarrow> prv hx n = prv h n"
        have "pstack hx bp rs' = pstack h bp rs'"
          using hx(1,3) h1(3) rest by (intro pstack_cong) auto
        then show "pstack hx m (M # rs')" using M hx b(4) by (simp add: bp_def)
      qed
      have ma: "merge_at cmp bits (r # rs) = M # rs'"
        using even False rs by (simp add: M_def)
      show ?thesis
      proof (cases tail)
        case None
        have "pstack h2 m (M # rs')"
          using m rest by (intro ps2) (auto simp: h2_def h1(4))
        moreover have "\<forall>n. n \<notin> set (concat (r # rs)) \<longrightarrow> nxt h2 n = nxt h n \<and> prv h2 n = prv h n"
          using h1(3) m rs by (auto simp: h2_def h1(4))
        moreover have "store_slot tail m (pending, h2) = Some (m, h2)" "load_slot tail (m, h2) = Some m"
          using None by (simp_all add: store_slot_def load_slot_def)
        moreover have "val h2 = val h" "alloc h2 = alloc h" using h1(5,6) by (simp_all add: h2_def)
        ultimately show ?thesis
          unfolding nb ma
          apply (simp only: Option.bind.simps rm)
          apply (rule exI[of _ m], rule exI[of _ h2], rule exI[of _ m])
          using None by simp
      next
        case (Some q)
        then have q: "q \<notin> set (concat (r # rs))" "valid h q" using "2.prems"(6) by auto
        then have qm: "q \<noteq> m" "q \<notin> set (concat rs')" using m rs by auto
        define h3 where "h3 = h2\<lparr>prv := (prv h2)(q := m)\<rparr>"
        have vq: "valid h2 q" "valid h3 q" using q(2) by (simp_all add: valid_def h3_def h2_def h1(6))
        have "pstack h3 m (M # rs')"
          using m rest qm by (intro ps2) (auto simp: h3_def h2_def h1(4))
        moreover have "\<forall>n. n \<notin> set (concat (r # rs)) \<longrightarrow>
            nxt h3 n = nxt h n \<and> (Some q \<noteq> Some n \<longrightarrow> prv h3 n = prv h n)"
          using h1(3) m rs by (auto simp: h3_def h2_def h1(4))
        moreover have "store_slot tail m (pending, h2) = Some (pending, h3)"
          "load_slot tail (pending, h3) = Some m"
          using Some vq by (simp_all add: store_slot_def load_slot_def h3_def)
        moreover have "val h3 = val h" "alloc h3 = alloc h"
          using h1(5,6) by (simp_all add: h3_def h2_def)
        ultimately show ?thesis
          unfolding nb ma
          apply (simp only: Option.bind.simps rm)
          apply (rule exI[of _ pending], rule exI[of _ h3], rule exI[of _ m])
          using Some by simp
      qed
    qed
  qed
qed

lemma list_sort_round_alt:
  "list_sort_round cmp (list, pending, cnt, h) = do {
     (pending1, h1) \<leftarrow> list_sort_bits cnt None (pending, h) \<bind> (\<lambda>bt. round_merge cmp bt (pending, h));
     h2 \<leftarrow> set_prev list pending1 h1;
     list' \<leftarrow> get_next h2 list;
     h3 \<leftarrow> set_next list 0 h2;
     Some (list', list, (cnt + 1) mod 2 ^ 64, h3) }"
  by (cases "list_sort_bits cnt None (pending, h)")
     (auto simp: list_sort_round_def round_merge_def split: prod.splits)

lemma mset_concat_merge_at: "mset (concat (merge_at cmp bits rs)) = mset (concat rs)"
  by (induction cmp bits rs rule: merge_at.induct) (auto split: list.splits)

lemma mset_concat_pending_runs: "mset (concat (pending_runs cmp xs)) = mset xs"
  by (induction xs rule: rev_induct) (simp_all add: pending_runs_snoc mset_concat_merge_at, simp add: pending_runs_def)

lemma set_concat_pending_runs: "set (concat (pending_runs cmp xs)) = set xs"
  using mset_concat_pending_runs[of cmp xs] by (rule mset_eq_setD)

lemma distinct_concat_pending_runs: "distinct (concat (pending_runs cmp xs)) = distinct xs"
  using mset_concat_pending_runs[of cmp xs] by (rule mset_eq_imp_distinct_iff)

lemma list_sort_round_state:
  assumes "sort_state cmp taken (x # inp) (list, pending, cnt, h)" "length taken + 1 < 2 ^ 64"
  shows "\<exists>pending' h'. list_sort_round cmp (list, pending, cnt, h) =
             Some (hd (inp @ [0]), pending', Suc cnt, h') \<and>
           sort_state cmp (taken @ [x]) inp (hd (inp @ [0]), pending', Suc cnt, h') \<and>
           (\<forall>n. n \<notin> set (taken @ [x]) \<longrightarrow> nxt h' n = nxt h n \<and> prv h' n = prv h n) \<and>
           val h' = val h \<and> alloc h' = alloc h"
proof -
  let ?rs = "pending_runs cmp taken"
  from assms(1) have st: "cnt = length taken" "pstack h pending ?rs" "seg (nxt h) list (x # inp) 0"
    "0 \<notin> set (taken @ x # inp)" "distinct (taken @ x # inp)" "\<forall>n \<in> set (taken @ x # inp). valid h n"
    by (simp_all add: sort_state_def)
  have lx: "list = x" "seg (nxt h) (nxt h x) inp 0" using st(3) by simp_all
  have so: "slots_ok cnt (length ?rs)"
    using slots_ok_pending_sizes[of cnt] pending_runs_sizes[of cmp taken] st(1)
    by (metis length_map)
  have ld: "load_slot None (pending, h) = Some pending" by (simp add: load_slot_def)
  have d: "distinct (concat ?rs)" using st(5) by (simp add: distinct_concat_pending_runs)
  have sc: "set (concat ?rs) = set taken" by (rule set_concat_pending_runs)
  have v: "\<forall>n \<in> set (concat ?rs). valid h n" unfolding sc using st(6) by simp
  from slot_walk_merge[OF ld st(2) so d v, of cmp]
  obtain pending1 h1 p' where
    h1: "list_sort_bits cnt None (pending, h) \<bind> (\<lambda>bt. round_merge cmp bt (pending, h)) = Some (pending1, h1)"
        "load_slot None (pending1, h1) = Some p'" "pstack h1 p' (merge_at cmp cnt ?rs)"
        "\<forall>n. n \<notin> set (concat ?rs) \<longrightarrow> nxt h1 n = nxt h n \<and> (None \<noteq> Some n \<longrightarrow> prv h1 n = prv h n)"
        "val h1 = val h" "alloc h1 = alloc h"
    by auto
  have p': "p' = pending1" using h1(2) by (simp add: load_slot_def)
  have xo: "x \<notin> set taken" "x \<noteq> 0" "set inp \<inter> set taken = {}" "x \<notin> set inp" using st(4,5) by auto
  have v1: "\<And>n. valid h1 n = valid h n" by (simp add: valid_def h1(6))
  have vx: "valid h x" using st(6) by simp
  define h2 where "h2 = h1\<lparr>prv := (prv h1)(x := pending1)\<rparr>"
  define h3 where "h3 = h2\<lparr>nxt := (nxt h2)(x := 0)\<rparr>"
  have nx: "nxt h1 x = nxt h x" using h1(4)[unfolded sc] xo by simp
  have nxi: "nxt h x = hd (inp @ [0])" using lx(2) by (cases inp) auto
  have vx1: "valid h1 x" using vx v1 by simp
  have ev: "set_prev x pending1 h1 = Some h2" "get_next h2 x = Some (hd (inp @ [0]))"
    "set_next x 0 h2 = Some h3"
    using vx1 nx nxi by (simp_all add: h2_def h3_def)
  have "cnt + 1 < 2 ^ 64" using assms(2) st(1) by simp
  then have cnt: "Suc cnt mod 18446744073709551616 = Suc cnt" by (intro mod_less) simp
  have call: "list_sort_round cmp (list, pending, cnt, h) = Some (hd (inp @ [0]), x, Suc cnt, h3)"
    unfolding list_sort_round_alt lx(1) by (simp add: h1(1) ev cnt)
  have cc: "length (concat ?rs) = cnt" using st(1) by (simp add: pending_runs_length_concat)
  have runs: "pending_runs cmp (taken @ [x]) = [x] # merge_at cmp cnt ?rs"
    by (simp add: pending_runs_snoc cc)
  have "pstack h3 pending1 (merge_at cmp cnt ?rs) = pstack h1 pending1 (merge_at cmp cnt ?rs)"
  proof (rule pstack_cong)
    fix n assume "n \<in> set (concat (merge_at cmp cnt ?rs))"
    then have "n \<in> set taken"
      using mset_concat_merge_at[of cmp cnt ?rs] mset_concat_pending_runs[of cmp taken]
      by (metis mset_eq_setD)
    then have "n \<noteq> x" using xo by auto
    then show "nxt h3 n = nxt h1 n \<and> prv h3 n = prv h1 n" by (simp add: h3_def h2_def)
  qed
  then have ps: "pstack h3 x (pending_runs cmp (taken @ [x]))"
    unfolding runs using h1(3) p' xo by (simp add: h3_def h2_def)
  have si: "seg (nxt h3) (hd (inp @ [0])) inp 0"
  proof -
    have "seg (nxt h3) (nxt h x) inp 0 = seg (nxt h) (nxt h x) inp 0"
    proof (rule seg_cong)
      fix n assume "n \<in> set inp"
      then have "n \<noteq> x" "n \<notin> set taken" using xo by auto
      then show "nxt h3 n = nxt h n" using h1(4)[unfolded sc] by (simp add: h3_def h2_def)
    qed
    then show ?thesis using lx(2) nxi by simp
  qed
  have "sort_state cmp (taken @ [x]) inp (hd (inp @ [0]), x, Suc cnt, h3)"
    unfolding sort_state_def using st ps si v1
    by (auto simp: h3_def h2_def valid_def)
  moreover have "\<forall>n. n \<notin> set (taken @ [x]) \<longrightarrow> nxt h3 n = nxt h n \<and> prv h3 n = prv h n"
    using h1(4)[unfolded sc] by (auto simp: h3_def h2_def)
  ultimately show ?thesis using call h1(5,6)
    by (intro exI[of _ x] exI[of _ h3]) (simp add: h3_def h2_def)
qed

lemma list_sort_rounds_state:
  assumes "sort_state cmp taken inp st" "k \<le> length inp" "length (taken @ inp) < 2 ^ 64"
  shows "\<exists>list pending h'. list_sort_rounds cmp k st = Some (list, pending, length taken + k, h') \<and>
           sort_state cmp (taken @ take k inp) (drop k inp) (list, pending, length taken + k, h') \<and>
           list = hd (drop k inp @ [0]) \<and>
           (\<forall>n. n \<notin> set (taken @ inp) \<longrightarrow> nxt h' n = nxt (snd (snd (snd st))) n \<and> prv h' n = prv (snd (snd (snd st))) n) \<and>
           val h' = val (snd (snd (snd st))) \<and> alloc h' = alloc (snd (snd (snd st)))"
  using assms
proof (induction k arbitrary: taken inp st)
  case 0
  obtain list pending cnt h where st: "st = (list, pending, cnt, h)" by (cases st) auto
  with 0 have "cnt = length taken" "seg (nxt h) list inp 0" by (simp_all add: sort_state_def)
  then have "list = hd (inp @ [0])" by (cases inp) auto
  then show ?case using 0 st \<open>cnt = length taken\<close> by simp
next
  case (Suc k)
  obtain list pending cnt h where st: "st = (list, pending, cnt, h)" by (cases st) auto
  from Suc.prems(2) obtain x inp' where inp: "inp = x # inp'" by (cases inp) auto
  have cnt: "cnt = length taken" using Suc.prems(1) st by (simp add: sort_state_def)
  have lt: "length taken + 1 < 2 ^ 64" using Suc.prems(3) inp by simp
  from list_sort_round_state[OF Suc.prems(1)[unfolded st inp] lt]
  obtain pending1 h1 where
    r: "list_sort_round cmp (list, pending, cnt, h) = Some (hd (inp' @ [0]), pending1, Suc cnt, h1)"
       "sort_state cmp (taken @ [x]) inp' (hd (inp' @ [0]), pending1, Suc cnt, h1)"
       "\<forall>n. n \<notin> set (taken @ [x]) \<longrightarrow> nxt h1 n = nxt h n \<and> prv h1 n = prv h n"
       "val h1 = val h" "alloc h1 = alloc h"
    by blast
  have k: "k \<le> length inp'" using Suc.prems(2) inp by simp
  have l: "length ((taken @ [x]) @ inp') < 2 ^ 64" using Suc.prems(3) inp by simp
  from Suc.IH[OF r(2) k l]
  obtain list' pending' h' where
    h': "list_sort_rounds cmp k (hd (inp' @ [0]), pending1, Suc cnt, h1) =
           Some (list', pending', length (taken @ [x]) + k, h')"
        "sort_state cmp ((taken @ [x]) @ take k inp') (drop k inp') (list', pending', length (taken @ [x]) + k, h')"
        "list' = hd (drop k inp' @ [0])"
        "\<forall>n. n \<notin> set ((taken @ [x]) @ inp') \<longrightarrow> nxt h' n = nxt h1 n \<and> prv h' n = prv h1 n"
        "val h' = val h1" "alloc h' = alloc h1"
    by auto
  show ?case
    using h' r st inp
    by (intro exI[of _ list'] exI[of _ pending'] exI[of _ h']) auto
qed

lemma list_sort_loop_rounds:
  assumes "sort_state cmp taken inp st" "inp \<noteq> []" "length (taken @ inp) < 2 ^ 64"
  shows "list_sort_loop cmp st = list_sort_rounds cmp (length inp) st"
  using assms
proof (induction inp arbitrary: taken st)
  case Nil
  then show ?case by simp
next
  case (Cons x inp)
  obtain list pending cnt h where st: "st = (list, pending, cnt, h)" by (cases st) auto
  have lt: "length taken + 1 < 2 ^ 64" using Cons.prems(3) by simp
  from list_sort_round_state[OF Cons.prems(1)[unfolded st] lt]
  obtain pending1 h1 where
    r: "list_sort_round cmp (list, pending, cnt, h) = Some (hd (inp @ [0]), pending1, Suc cnt, h1)"
       "sort_state cmp (taken @ [x]) inp (hd (inp @ [0]), pending1, Suc cnt, h1)"
    by blast
  show ?case
  proof (cases "inp = []")
    case True
    then show ?thesis unfolding st
      by (subst list_sort_loop.simps) (simp add: r(1))
  next
    case False
    have z: "0 \<notin> set inp" using r(2) by (simp add: sort_state_def)
    then have nz: "hd (inp @ [0]) \<noteq> 0" using False by (cases inp) auto
    have l: "length ((taken @ [x]) @ inp) < 2 ^ 64" using Cons.prems(3) by simp
    from Cons.IH[OF r(2) False l] show ?thesis unfolding st
      by (subst list_sort_loop.simps) (simp add: r(1) nz)
  qed
qed

lemma length_pending_sizes_ge2: "2 \<le> n \<Longrightarrow> 2 \<le> length (pending_sizes n)"
proof (cases n rule: pending_sizes_cases)
  case zero
  assume "2 \<le> n"
  with zero show ?thesis by simp
next
  case odd
  assume "2 \<le> n"
  then have "0 < n div 2" by presburger
  then obtain ss where "pending_sizes (n div 2) = 1 # ss" using pending_sizes_hd by blast
  then show ?thesis using odd by (simp add: pending_sizes_odd)
next
  case even
  then show ?thesis by (simp add: pending_sizes_even)
qed

lemma merge_all_snoc: "merge_all cmp acc (rs @ [r]) = merge_runs cmp r (merge_all cmp acc rs)"
  by (induction rs arbitrary: acc) auto

lemma merge_runs_Nil_iff [simp]: "merge_runs cmp as bs = [] \<longleftrightarrow> as = [] \<and> bs = []"
  by (induction cmp as bs rule: merge_runs.induct) auto

lemma distinct_merge_runs [simp]: "distinct (merge_runs cmp as bs) = distinct (as @ bs)"
  using mset_merge_runs[of cmp as bs] by (metis mset_append mset_eq_imp_distinct_iff)

lemma list_sort_final_chain:
  assumes "seg (nxt h) list acc 0" "acc \<noteq> []" "0 \<notin> set acc" "pstack h pending rs" "rs \<noteq> []"
    "distinct (acc @ concat rs)" "\<forall>n \<in> set (acc @ concat rs). valid h n"
  shows "\<exists>list' pending' h'. list_sort_final cmp list pending h = Some (list', pending', h') \<and>
           seg (nxt h') list' (merge_all cmp acc (butlast rs)) 0 \<and>
           seg (nxt h') pending' (last rs) 0 \<and> last rs \<noteq> [] \<and> 0 \<notin> set (last rs) \<and>
           (\<forall>n. n \<notin> set (acc @ concat rs) \<longrightarrow> nxt h' n = nxt h n) \<and>
           prv h' = prv h \<and> val h' = val h \<and> alloc h' = alloc h"
  using assms
proof (induction rs arbitrary: acc list pending h)
  case Nil
  then show ?case by simp
next
  case (Cons r rs)
  note ph = pstack_head[OF Cons.prems(4)]
  have r: "r \<noteq> []" "0 \<notin> set r" "seg (nxt h) pending r 0" "pstack h (prv h pending) rs"
    using Cons.prems(4) by simp_all
  have vp: "valid h pending" using ph Cons.prems(7) by auto
  show ?case
  proof (cases rs)
    case Nil
    then have "prv h pending = 0" using r(4) by simp
    then have "list_sort_final cmp list pending h = Some (list, pending, h)"
      using vp by (subst list_sort_final.simps) simp
    then show ?thesis using Nil Cons.prems(1) r by simp
  next
    case (Cons r2 rs')
    from pstack_head[OF r(4)[unfolded Cons]] have nz: "prv h pending \<noteq> 0" by simp
    have dis: "distinct (r @ acc)" "0 \<notin> set (r @ acc)" "\<forall>n \<in> set (r @ acc). valid h n"
      using Cons.prems(3,6,7) r(2) by auto
    from merge_chain[OF r(3) Cons.prems(1) r(1) Cons.prems(2) dis, of cmp] obtain m h1 where
      h1: "merge cmp pending list h = Some (m, h1)" "seg (nxt h1) m (merge_runs cmp r acc) 0"
          "\<forall>n. n \<notin> set (r @ acc) \<longrightarrow> nxt h1 n = nxt h n"
          "prv h1 = prv h" "val h1 = val h" "alloc h1 = alloc h"
      by blast
    have v1: "\<And>n. valid h1 n = valid h n" by (simp add: valid_def h1(6))
    have "pstack h1 (prv h pending) rs = pstack h (prv h pending) rs"
      using h1(3,4) Cons.prems(6) by (intro pstack_cong) auto
    then have ps: "pstack h1 (prv h pending) rs" using r(4) by simp
    have "\<exists>list' pending' h'. list_sort_final cmp m (prv h pending) h1 = Some (list', pending', h') \<and>
           seg (nxt h') list' (merge_all cmp (merge_runs cmp r acc) (butlast rs)) 0 \<and>
           seg (nxt h') pending' (last rs) 0 \<and> last rs \<noteq> [] \<and> 0 \<notin> set (last rs) \<and>
           (\<forall>n. n \<notin> set (merge_runs cmp r acc @ concat rs) \<longrightarrow> nxt h' n = nxt h1 n) \<and>
           prv h' = prv h1 \<and> val h' = val h1 \<and> alloc h' = alloc h1"
      using Cons.prems(2,3,6,7) r(1,2) Cons v1
      by (intro Cons.IH[OF h1(2) _ _ ps]) (auto simp: distinct_merge_runs)
    then obtain list' pending' h' where
      h': "list_sort_final cmp m (prv h pending) h1 = Some (list', pending', h')"
          "seg (nxt h') list' (merge_all cmp (merge_runs cmp r acc) (butlast rs)) 0"
          "seg (nxt h') pending' (last rs) 0" "last rs \<noteq> []" "0 \<notin> set (last rs)"
          "\<forall>n. n \<notin> set (merge_runs cmp r acc @ concat rs) \<longrightarrow> nxt h' n = nxt h1 n"
          "prv h' = prv h1" "val h' = val h1" "alloc h' = alloc h1"
      by blast
    have call: "list_sort_final cmp list pending h = Some (list', pending', h')"
      by (subst list_sort_final.simps) (simp add: vp nz h1(1) h'(1))
    show ?thesis
      using call h' h1(3,4,5,6) Cons
      by (intro exI[of _ list'] exI[of _ pending'] exI[of _ h']) auto
  qed
qed

lemma dbuilt_append:
  assumes "dbuilt h head tail D" "distinct (head # D @ [x])"
  shows "dbuilt (h\<lparr>nxt := (nxt h)(tail := x), prv := (prv h)(x := tail)\<rparr>) head x (D @ [x])"
proof -
  have t: "tail = last (head # D)" "seg (nxt h) head (butlast (head # D)) tail"
    "seg (prv h) tail (rev D) head"
    using assms(1) unfolding dbuilt_def by blast+
  define B where "B = butlast (head # D)"
  have hd: "head # D = B @ [tail]" unfolding B_def using t(1) by simp
  have tn: "tail \<notin> set B" using assms(2) hd by (metis distinct.simps(2) distinct_append append_Cons not_distinct_conv_prefix distinct1_rotate rotate1.simps(2) distinct_rev rev.simps(2) set_rev)
  have xn: "x \<notin> set D" using assms(2) by auto
  have "seg (nxt h) head B tail" using t(2) by (simp only: B_def)
  then have "seg ((nxt h)(tail := x)) head (B @ [tail]) x"
    using tn by (simp add: seg_snoc seg_upd)
  moreover have "butlast (head # D @ [x]) = B @ [tail]"
    using hd by (metis append_Cons butlast_snoc)
  ultimately have n: "seg ((nxt h)(tail := x)) head (butlast (head # D @ [x])) x" by simp
  have p: "seg ((prv h)(x := tail)) x (rev (D @ [x])) head"
    using t(3) xn by (simp add: seg_upd)
  show ?thesis using n p by (simp add: dbuilt_def)
qed

lemma merge_final_loop_chain:
  assumes "seg (nxt h) a A 0" "seg (nxt h) b B 0" "A \<noteq> []" "B \<noteq> []"
    "distinct (head # D @ A @ B)" "0 \<notin> set (A @ B)"
    "\<forall>n \<in> set (head # D @ A @ B). valid h n" "dbuilt h head tail D"
  shows "\<exists>b' tail' h' pre rest. merge_final_loop cmp a b tail h = Some (b', tail', h') \<and>
           merge_runs cmp A B = pre @ rest \<and> rest \<noteq> [] \<and>
           dbuilt h' head tail' (D @ pre) \<and> seg (nxt h') b' rest 0 \<and>
           (\<forall>n. n \<notin> set (head # D @ A @ B) \<longrightarrow> nxt h' n = nxt h n \<and> prv h' n = prv h n) \<and>
           val h' = val h \<and> alloc h' = alloc h"
  using assms
proof (induction cmp A B arbitrary: a b D tail h rule: merge_runs.induct)
  case (1 cmp bs)
  then show ?case by simp
next
  case (2 cmp as)
  then show ?case by simp
next
  case (3 cmp x as y bs)
  from "3.prems"(1,2,6) have ab: "a = x" "b = y"
    and sa: "(nxt h x = 0 \<longleftrightarrow> as = []) \<and> seg (nxt h) (nxt h x) as 0"
    and sb: "(nxt h y = 0 \<longleftrightarrow> bs = []) \<and> seg (nxt h) (nxt h y) bs 0"
    using seg_chain_next[of "nxt h" a x as] seg_chain_next[of "nxt h" b y bs] by auto
  have vxy: "valid h x" "valid h y" using "3.prems"(7) by auto
  have tl: "tail = last (head # D)" using "3.prems"(8) by (simp add: dbuilt_def)
  then have tin: "tail \<in> set (head # D)" by (metis last_in_set list.distinct(1))
  then have vt: "valid h tail" using "3.prems"(7) by auto
  have tx: "tail \<noteq> x" "tail \<noteq> y" "tail \<notin> set (as @ bs)" using tin "3.prems"(5) by auto
  have cc: "call_cmp cmp h x y = Some (cmp x y)" using vxy by (simp add: call_cmp_def)
  show ?case
  proof (cases "cmp x y \<le> 0")
    case True
    define h2 where "h2 = h\<lparr>nxt := (nxt h)(tail := x), prv := (prv h)(x := tail)\<rparr>"
    have db: "dbuilt h2 head x (D @ [x])"
      unfolding h2_def using "3.prems"(5,8) by (intro dbuilt_append) auto
    have ev: "set_next tail x h = Some (h\<lparr>nxt := (nxt h)(tail := x)\<rparr>)"
      "set_prev x tail (h\<lparr>nxt := (nxt h)(tail := x)\<rparr>) = Some h2"
      "get_next h2 x = Some (nxt h x)"
      using vt vxy tx by (simp_all add: h2_def)
    have v2: "\<And>n. valid h2 n = valid h n" by (simp add: valid_def h2_def)
    have fr0: "\<forall>n. n \<notin> set (head # D @ (x # as) @ y # bs) \<longrightarrow> nxt h2 n = nxt h n \<and> prv h2 n = prv h n"
      using tin by (auto simp: h2_def)
    have va: "val h2 = val h" "alloc h2 = alloc h" by (simp_all add: h2_def)
    have sy2: "seg (nxt h2) y (y # bs) 0"
      using "3.prems"(2) ab tx by (simp add: h2_def seg_upd)
    show ?thesis
    proof (cases "as = []")
      case as: True
      have call: "merge_final_loop cmp a b tail h = Some (y, x, h2)"
        unfolding ab by (subst merge_final_loop.simps) (simp add: cc True ev sa as)
      show ?thesis
        apply (rule exI[of _ y], rule exI[of _ x], rule exI[of _ h2], rule exI[of _ "[x]"], rule exI[of _ "y # bs"])
        using call db sy2 True as fr0 va by simp
    next
      case as: False
      have sx2: "seg (nxt h2) (nxt h x) as 0" using sa tx by (simp add: h2_def seg_upd)
      have "\<exists>b' tail' h' pre rest. merge_final_loop cmp (nxt h x) y x h2 = Some (b', tail', h') \<and>
           merge_runs cmp as (y # bs) = pre @ rest \<and> rest \<noteq> [] \<and>
           dbuilt h' head tail' ((D @ [x]) @ pre) \<and> seg (nxt h') b' rest 0 \<and>
           (\<forall>n. n \<notin> set (head # (D @ [x]) @ as @ y # bs) \<longrightarrow> nxt h' n = nxt h2 n \<and> prv h' n = prv h2 n) \<and>
           val h' = val h2 \<and> alloc h' = alloc h2"
        using "3.prems"(5,6,7) v2
        by (intro "3.IH"(1)[OF True sx2 sy2 as _ _ _ _ db]) auto
      then obtain b' tail' h' pre rest where
        h': "merge_final_loop cmp (nxt h x) y x h2 = Some (b', tail', h')"
            "merge_runs cmp as (y # bs) = pre @ rest" "rest \<noteq> []"
            "dbuilt h' head tail' ((D @ [x]) @ pre)" "seg (nxt h') b' rest 0"
            "\<forall>n. n \<notin> set (head # (D @ [x]) @ as @ y # bs) \<longrightarrow> nxt h' n = nxt h2 n \<and> prv h' n = prv h2 n"
            "val h' = val h2" "alloc h' = alloc h2"
        by blast
      have call: "merge_final_loop cmp a b tail h = Some (b', tail', h')"
        unfolding ab by (subst merge_final_loop.simps) (simp add: cc True ev sa as h'(1))
      have fr: "\<forall>n. n \<notin> set (head # D @ (x # as) @ y # bs) \<longrightarrow> nxt h' n = nxt h n \<and> prv h' n = prv h n"
        using h'(6) fr0 by auto
      show ?thesis
        apply (rule exI[of _ b'], rule exI[of _ tail'], rule exI[of _ h'], rule exI[of _ "x # pre"], rule exI[of _ rest])
        using call h'(2,3,4,5,7,8) fr True va by simp
    qed
  next
    case False
    define h2 where "h2 = h\<lparr>nxt := (nxt h)(tail := y), prv := (prv h)(y := tail)\<rparr>"
    have db: "dbuilt h2 head y (D @ [y])"
      unfolding h2_def using "3.prems"(5,8) by (intro dbuilt_append) auto
    have ev: "set_next tail y h = Some (h\<lparr>nxt := (nxt h)(tail := y)\<rparr>)"
      "set_prev y tail (h\<lparr>nxt := (nxt h)(tail := y)\<rparr>) = Some h2"
      "get_next h2 y = Some (nxt h y)"
      using vt vxy tx by (simp_all add: h2_def)
    have v2: "\<And>n. valid h2 n = valid h n" by (simp add: valid_def h2_def)
    have fr0: "\<forall>n. n \<notin> set (head # D @ (x # as) @ y # bs) \<longrightarrow> nxt h2 n = nxt h n \<and> prv h2 n = prv h n"
      using tin by (auto simp: h2_def)
    have va: "val h2 = val h" "alloc h2 = alloc h" by (simp_all add: h2_def)
    have sx2: "seg (nxt h2) x (x # as) 0"
      using "3.prems"(1) ab tx by (simp add: h2_def seg_upd)
    show ?thesis
    proof (cases "bs = []")
      case bs: True
      have call: "merge_final_loop cmp a b tail h = Some (x, y, h2)"
        unfolding ab by (subst merge_final_loop.simps) (simp add: cc False ev sb bs)
      show ?thesis
        apply (rule exI[of _ x], rule exI[of _ y], rule exI[of _ h2], rule exI[of _ "[y]"], rule exI[of _ "x # as"])
        using call db sx2 False bs fr0 va by simp
    next
      case bs: False
      have sy2: "seg (nxt h2) (nxt h y) bs 0" using sb tx by (simp add: h2_def seg_upd)
      have "\<exists>b' tail' h' pre rest. merge_final_loop cmp x (nxt h y) y h2 = Some (b', tail', h') \<and>
           merge_runs cmp (x # as) bs = pre @ rest \<and> rest \<noteq> [] \<and>
           dbuilt h' head tail' ((D @ [y]) @ pre) \<and> seg (nxt h') b' rest 0 \<and>
           (\<forall>n. n \<notin> set (head # (D @ [y]) @ (x # as) @ bs) \<longrightarrow> nxt h' n = nxt h2 n \<and> prv h' n = prv h2 n) \<and>
           val h' = val h2 \<and> alloc h' = alloc h2"
        using "3.prems"(5,6,7) v2
        by (intro "3.IH"(2)[OF False sx2 sy2 _ bs _ _ _ db]) auto
      then obtain b' tail' h' pre rest where
        h': "merge_final_loop cmp x (nxt h y) y h2 = Some (b', tail', h')"
            "merge_runs cmp (x # as) bs = pre @ rest" "rest \<noteq> []"
            "dbuilt h' head tail' ((D @ [y]) @ pre)" "seg (nxt h') b' rest 0"
            "\<forall>n. n \<notin> set (head # (D @ [y]) @ (x # as) @ bs) \<longrightarrow> nxt h' n = nxt h2 n \<and> prv h' n = prv h2 n"
            "val h' = val h2" "alloc h' = alloc h2"
        by blast
      have call: "merge_final_loop cmp a b tail h = Some (b', tail', h')"
        unfolding ab by (subst merge_final_loop.simps) (simp add: cc False ev sb bs h'(1))
      have fr: "\<forall>n. n \<notin> set (head # D @ (x # as) @ y # bs) \<longrightarrow> nxt h' n = nxt h n \<and> prv h' n = prv h n"
        using h'(6) fr0 by auto
      show ?thesis
        apply (rule exI[of _ b'], rule exI[of _ tail'], rule exI[of _ h'], rule exI[of _ "y # pre"], rule exI[of _ rest])
        using call h'(2,3,4,5,7,8) fr False va by simp
    qed
  qed
qed

lemma merge_final_rest_chain:
  assumes "seg (nxt h) b R 0" "R \<noteq> []" "0 \<notin> set R" "distinct R" "\<forall>n \<in> set R. valid h n"
  shows "\<exists>h'. merge_final_rest cmp cnt b tail h = Some (last R, h') \<and>
           seg (prv h') (last R) (rev R) tail \<and>
           (\<forall>n. n \<notin> set R \<longrightarrow> prv h' n = prv h n) \<and>
           nxt h' = nxt h \<and> val h' = val h \<and> alloc h' = alloc h"
  using assms
proof (induction R arbitrary: b tail cnt h)
  case Nil
  then show ?case by simp
next
  case (Cons x R)
  from Cons.prems(1,3) have bx: "b = x"
    and sx: "(nxt h x = 0 \<longleftrightarrow> R = []) \<and> seg (nxt h) (nxt h x) R 0"
    using seg_chain_next[of "nxt h" b x R] by auto
  have vx: "valid h x" using Cons.prems(5) by simp
  define h1 where "h1 = h\<lparr>prv := (prv h)(x := tail)\<rparr>"
  have ev: "(if cnt + 1 = 0 then call_cmp cmp h x x else Some 0) \<noteq> None"
    "set_prev x tail h = Some h1" "get_next h1 x = Some (nxt h x)"
    using vx by (simp_all add: call_cmp_def h1_def)
  then obtain c where c: "(if cnt + 1 = 0 then call_cmp cmp h x x else Some 0) = Some c" by blast
  show ?case
  proof (cases "R = []")
    case True
    have "merge_final_rest cmp cnt b tail h = Some (x, h1)"
      unfolding bx using sx True by (subst merge_final_rest.simps) (simp add: c ev del: One_nat_def)
    then show ?thesis
      apply - apply (rule exI[of _ h1])
      using True by (simp add: h1_def)
  next
    case False
    have "\<exists>h'. merge_final_rest cmp (cnt + 1) (nxt h x) x h1 = Some (last R, h') \<and>
           seg (prv h') (last R) (rev R) x \<and>
           (\<forall>n. n \<notin> set R \<longrightarrow> prv h' n = prv h1 n) \<and>
           nxt h' = nxt h1 \<and> val h' = val h1 \<and> alloc h' = alloc h1"
      using sx Cons.prems(3,4,5) False
      by (intro Cons.IH) (auto simp: h1_def valid_def)
    then obtain h' where
      h': "merge_final_rest cmp (cnt + 1) (nxt h x) x h1 = Some (last R, h')"
          "seg (prv h') (last R) (rev R) x" "\<forall>n. n \<notin> set R \<longrightarrow> prv h' n = prv h1 n"
          "nxt h' = nxt h1" "val h' = val h1" "alloc h' = alloc h1"
      by blast
    have px: "prv h' x = tail" using h'(3) Cons.prems(4) by (simp add: h1_def)
    have call: "merge_final_rest cmp cnt b tail h = Some (last R, h')"
      unfolding bx using sx False by (subst merge_final_rest.simps) (simp add: c ev h'(1) del: One_nat_def)
    have "seg (prv h') (last (x # R)) (rev (x # R)) tail"
      using h'(2) px False by (simp add: seg_snoc)
    moreover have "\<forall>n. n \<notin> set (x # R) \<longrightarrow> prv h' n = prv h n" using h'(3) by (simp add: h1_def)
    ultimately show ?thesis
      apply - apply (rule exI[of _ h'])
      using call h'(4,5,6) False by (simp add: h1_def)
  qed
qed

lemma merge_final_ring:
  assumes "seg (nxt h) a A 0" "seg (nxt h) b B 0" "A \<noteq> []" "B \<noteq> []"
    "distinct (head # A @ B)" "0 \<notin> set (A @ B)" "\<forall>n \<in> set (head # A @ B). valid h n"
  shows "\<exists>h'. merge_final cmp head a b h = Some h' \<and>
           seg (nxt h') head (head # merge_runs cmp A B) head \<and>
           seg (prv h') head (head # rev (merge_runs cmp A B)) head \<and>
           (\<forall>n. n \<notin> set (head # A @ B) \<longrightarrow> nxt h' n = nxt h n \<and> prv h' n = prv h n) \<and>
           val h' = val h \<and> alloc h' = alloc h"
proof -
  let ?M = "merge_runs cmp A B"
  have db0: "dbuilt h head head []" by (simp add: dbuilt_def)
  from merge_final_loop_chain[OF assms(1,2,3,4) _ assms(6) _ db0, of cmp] assms(5,7)
  obtain b' tail h1 pre rest where
    h1: "merge_final_loop cmp a b head h = Some (b', tail, h1)"
        "?M = pre @ rest" "rest \<noteq> []" "dbuilt h1 head tail ([] @ pre)" "seg (nxt h1) b' rest 0"
        "\<forall>n. n \<notin> set (head # [] @ A @ B) \<longrightarrow> nxt h1 n = nxt h n \<and> prv h1 n = prv h n"
        "val h1 = val h" "alloc h1 = alloc h"
    by auto
  have sM: "set ?M = set A \<union> set B" "distinct ?M" using assms(5) by auto
  have pr: "set pre \<inter> set rest = {}" "distinct pre" "distinct rest"
    "set pre \<union> set rest = set A \<union> set B"
    using sM h1(2) by auto
  have hn: "head \<notin> set pre" "head \<notin> set rest" "0 \<notin> set rest" "0 \<notin> set pre"
    using assms(5,6) pr(4) by auto
  have v1: "\<And>n. valid h1 n = valid h n" by (simp add: valid_def h1(8))
  have t: "tail = last (head # pre)" "seg (nxt h1) head (butlast (head # pre)) tail"
    "seg (prv h1) tail (rev pre) head"
  proof -
    have db1: "dbuilt h1 head tail pre" using h1(4) by simp
    show "tail = last (head # pre)" "seg (nxt h1) head (butlast (head # pre)) tail"
      "seg (prv h1) tail (rev pre) head"
      using db1 unfolding dbuilt_def by blast+
  qed
  have tin: "tail \<in> set (head # pre)" using t(1) by (metis last_in_set list.distinct(1))
  have vt: "valid h tail" using tin assms(7) pr(4) by auto
  have tnr: "tail \<notin> set rest" using tin hn pr(1) by auto
  define h2 where "h2 = h1\<lparr>nxt := (nxt h1)(tail := b')\<rparr>"
  have s2: "seg (nxt h2) b' rest 0" using h1(5) tnr by (simp add: h2_def seg_upd)
  have vr: "\<forall>n \<in> set rest. valid h2 n" using assms(7) pr(4) v1 by (auto simp: h2_def valid_def)
  from merge_final_rest_chain[OF s2 h1(3) hn(3) pr(3) vr, of cmp 0 tail]
  obtain h3 where
    h3: "merge_final_rest cmp 0 b' tail h2 = Some (last rest, h3)"
        "seg (prv h3) (last rest) (rev rest) tail" "\<forall>n. n \<notin> set rest \<longrightarrow> prv h3 n = prv h2 n"
        "nxt h3 = nxt h2" "val h3 = val h2" "alloc h3 = alloc h2"
    by blast
  define t' where "t' = last rest"
  have t'in: "t' \<in> set rest" using h1(3) by (simp add: t'_def)
  define h4 where "h4 = h3\<lparr>nxt := (nxt h3)(t' := head)\<rparr>"
  define h5 where "h5 = h4\<lparr>prv := (prv h4)(head := t')\<rparr>"
  have al: "alloc h2 = alloc h" "alloc h3 = alloc h" "alloc h4 = alloc h"
    using h1(8) h3(6) by (simp_all add: h2_def h4_def)
  have vs: "valid h1 tail" "valid h3 t'" "valid h4 head"
    using vt t'in assms(7) pr(4) by (auto simp: valid_def al h1(8))
  have ev: "set_next tail b' h1 = Some h2" "set_next t' head h3 = Some h4" "set_prev head t' h4 = Some h5"
    using vs by (simp_all add: h2_def h4_def h5_def)
  have call: "merge_final cmp head a b h = Some h5"
    by (simp add: merge_final_def h1(1) ev h3(1)[folded t'_def])
  obtain rs where rest: "rest = rs @ [t']" using h1(3) t'_def by (metis append_butlast_last_id)
  have t'n: "t' \<notin> set rs" "t' \<notin> set pre" "t' \<noteq> head" "t' \<noteq> tail"
    using pr(1,3) rest hn tin by auto
  obtain B0 where hp: "head # pre = B0 @ [tail]" using t(1) by (metis append_butlast_last_id list.distinct(1))
  have B0: "B0 = butlast (head # pre)" using hp by (metis butlast_snoc)
  have tB0: "tail \<notin> set B0" using hp pr(2) hn(1) by (metis distinct.simps(2) distinct_append append_Cons not_distinct_conv_prefix distinct1_rotate rotate1.simps(2) distinct_rev rev.simps(2) set_rev)
  have B0sub: "set B0 \<subseteq> set (head # pre)" using hp by (metis set_append Un_upper1)
  have "seg (nxt h5) head (B0 @ [tail] @ rs @ [t']) head"
  proof -
    have a1: "seg (nxt h5) head B0 tail"
    proof -
      have "seg (nxt h5) head B0 tail = seg (nxt h1) head B0 tail"
      proof (rule seg_cong)
        fix n assume "n \<in> set B0"
        then have "n \<noteq> tail" "n \<noteq> t'" using tB0 B0sub t'n by auto
        then show "nxt h5 n = nxt h1 n" by (simp add: h5_def h4_def h3(4) h2_def)
      qed
      then show ?thesis using t(2) B0 by simp
    qed
    have a2: "nxt h5 tail = b'" using t'n by (simp add: h5_def h4_def h3(4) h2_def)
    have a3: "seg (nxt h5) b' rs t'"
    proof -
      have "seg (nxt h5) b' rs t' = seg (nxt h2) b' rs t'"
      proof (rule seg_cong)
        fix n assume "n \<in> set rs"
        then have "n \<noteq> t'" using t'n by auto
        then show "nxt h5 n = nxt h2 n" by (simp add: h5_def h4_def h3(4))
      qed
      then show ?thesis using s2 rest by (simp add: seg_snoc)
    qed
    have a4: "nxt h5 t' = head" by (simp add: h5_def h4_def)
    show ?thesis using a1 a2 a3 a4 by (simp add: seg_mid seg_snoc)
  qed
  then have n5: "seg (nxt h5) head (head # ?M) head"
    using hp rest h1(2) by (metis append.assoc append_Cons)
  have "seg (prv h5) t' (rev rest @ rev pre) head"
  proof -
    have b1: "seg (prv h5) t' (rev rest) tail"
    proof -
      have "seg (prv h5) t' (rev rest) tail = seg (prv h3) t' (rev rest) tail"
        using hn by (intro seg_cong) (auto simp: h5_def h4_def)
      then show ?thesis using h3(2) t'_def by simp
    qed
    have b2: "seg (prv h5) tail (rev pre) head"
    proof -
      have "seg (prv h5) tail (rev pre) head = seg (prv h1) tail (rev pre) head"
      proof (rule seg_cong)
        fix n assume "n \<in> set (rev pre)"
        then have "n \<noteq> head" "n \<notin> set rest" using hn pr(1) by auto
        then show "prv h5 n = prv h1 n" using h3(3) by (simp add: h5_def h4_def h2_def)
      qed
      then show ?thesis using t(3) by simp
    qed
    show ?thesis using b1 b2 by (auto simp: seg_append)
  qed
  then have p5: "seg (prv h5) head (head # rev ?M) head"
    using h1(2) by (simp add: h5_def)
  have fr: "\<forall>n. n \<notin> set (head # A @ B) \<longrightarrow> nxt h5 n = nxt h n \<and> prv h5 n = prv h n"
  proof (intro allI impI)
    fix n assume n: "n \<notin> set (head # A @ B)"
    then have "n \<noteq> head" "n \<notin> set pre" "n \<notin> set rest" using pr(4) by auto
    then have "n \<noteq> tail" "n \<noteq> t'" using tin t'in by auto
    then show "nxt h5 n = nxt h n \<and> prv h5 n = prv h n"
      using h1(6) h3(3) n \<open>n \<notin> set rest\<close> \<open>n \<noteq> head\<close>
      by (simp add: h5_def h4_def h3(4) h2_def)
  qed
  show ?thesis
    using call n5 p5 fr h1(7) h3(5) al
    by (intro exI[of _ h5]) (simp add: h5_def h4_def h2_def)
qed

lemma mset_merge_all: "mset (merge_all cmp acc rs) = mset acc + mset (concat rs)"
  by (induction rs arbitrary: acc) auto

lemma set_merge_all: "set (merge_all cmp acc rs) = set acc \<union> set (concat rs)"
  using mset_merge_all[of cmp acc rs] by (metis mset_append set_append set_mset_mset)

lemma merge_all_Nil_iff: "merge_all cmp acc rs = [] \<longleftrightarrow> acc = [] \<and> concat rs = []"
  using mset_merge_all[of cmp acc rs] by (metis append_is_Nil_conv mset_append mset_zero_iff)

lemma mset_sort_nodes: "mset (sort_nodes cmp xs) = mset xs"
proof (cases "pending_runs cmp xs")
  case Nil
  then show ?thesis using mset_concat_pending_runs[of cmp xs] by (simp add: sort_nodes_def)
next
  case (Cons r rs)
  then show ?thesis using mset_concat_pending_runs[of cmp xs]
    by (simp add: sort_nodes_def mset_merge_all)
qed

lemma set_sort_nodes [simp]: "set (sort_nodes cmp xs) = set xs"
  using mset_sort_nodes[of cmp xs] by (metis set_mset_mset)

lemma distinct_sort_nodes [simp]: "distinct (sort_nodes cmp xs) = distinct xs"
  using mset_sort_nodes[of cmp xs] by (metis mset_eq_imp_distinct_iff)

lemma sort_nodes_Nil [simp]: "sort_nodes cmp [] = []"
  by (simp add: sort_nodes_def pending_runs_def)

lemma sort_nodes_single [simp]: "sort_nodes cmp [x] = [x]"
  by (simp add: sort_nodes_def pending_runs_def)

lemma list_sort_ring:
  assumes "ring h head xs" "length xs < 2 ^ 64"
  shows "\<exists>h'. list_sort cmp head h = Some h' \<and> ring h' head (sort_nodes cmp xs) \<and>
           val h' = val h \<and> alloc h' = alloc h"
proof -
  have r: "seg (nxt h) head (head # xs) head" "seg (prv h) head (head # rev xs) head"
    "distinct (head # xs)" "\<forall>n \<in> set (head # xs). valid h n" "\<forall>n \<in> set xs. val h n \<noteq> None"
    using assms(1) unfolding ring_def by blast+
  have vh: "valid h head" using r(4) by simp
  have nx: "nxt h head = hd (xs @ [head])" by (rule ring_head_next[OF assms(1)])
  have pv: "prv h head = last (head # xs)" by (rule ring_head_prev[OF assms(1)])
  consider "xs = []" | x where "xs = [x]" | "2 \<le> length xs"
    by (cases xs rule: list.exhaust; cases "tl xs") auto
  then show ?thesis
  proof cases
    case 1
    then show ?thesis using assms(1) vh nx pv by (simp add: list_sort_def)
  next
    case 2
    then show ?thesis using assms(1) vh nx pv by (simp add: list_sort_def)
  next
    case 3
    then obtain x ys where xs: "xs = x # ys" "ys \<noteq> []" by (cases xs) force+
    define l where "l = last xs"
    have lin: "l \<in> set xs" using xs by (simp add: l_def)
    have lx: "x \<noteq> l" using r(3) xs by (auto simp: l_def)
    have nx': "nxt h head = x" using nx xs by simp
    have pv': "prv h head = l" using pv xs by (simp add: l_def)
    have z: "0 \<notin> set xs" using r(4) by (auto simp: valid_def)
    obtain bs where bs: "xs = bs @ [l]" using xs l_def by (metis append_butlast_last_id list.distinct(1))
    have lb: "l \<notin> set bs" "head \<notin> set bs" "head \<noteq> l" using r(3) bs by auto
    define h1 where "h1 = h\<lparr>nxt := (nxt h)(l := 0)\<rparr>"
    have vl: "valid h l" using r(4) lin by simp
    have s0: "seg (nxt h) x xs head" using r(1) xs by simp
    have s1: "seg (nxt h1) x xs 0"
    proof -
      have "seg (nxt h) x bs l" using s0 bs by (simp add: seg_snoc)
      then have "seg (nxt h1) x bs l" using lb by (simp add: h1_def seg_upd)
      then show ?thesis unfolding bs by (simp add: seg_snoc h1_def)
    qed
    have v1: "\<And>n. valid h1 n = valid h n" by (simp add: h1_def valid_def)
    have st: "sort_state cmp [] xs (x, 0, 0, h1)"
      using s1 z r(3,4) by (simp add: sort_state_def pending_runs_def v1)
    have ne: "xs \<noteq> []" using xs by simp
    have len: "length ([] @ xs) < 2 ^ 64" using assms(2) by simp
    from list_sort_rounds_state[OF st order_refl len]
    obtain list pending h2 where
      h2: "list_sort_rounds cmp (length xs) (x, 0, 0, h1) = Some (list, pending, length xs, h2)"
          "sort_state cmp xs [] (list, pending, length xs, h2)"
          "\<forall>n. n \<notin> set xs \<longrightarrow> nxt h2 n = nxt h1 n \<and> prv h2 n = prv h1 n"
          "val h2 = val h1" "alloc h2 = alloc h1"
      by auto
    have loop: "list_sort_loop cmp (x, 0, 0, h1) = Some (list, pending, length xs, h2)"
      using list_sort_loop_rounds[OF st ne len] h2(1) by simp
    have ps: "pstack h2 pending (pending_runs cmp xs)" using h2(2) by (simp add: sort_state_def)
    have "2 \<le> length (map length (pending_runs cmp xs))"
      unfolding pending_runs_sizes by (rule length_pending_sizes_ge2[OF 3])
    then obtain r0 rs where pr: "pending_runs cmp xs = r0 # rs" "rs \<noteq> []"
      by (cases "pending_runs cmp xs") force+
    have sc: "set (r0 @ concat rs) = set xs" "distinct (r0 @ concat rs)"
      using set_concat_pending_runs[of cmp xs] distinct_concat_pending_runs[of cmp xs] r(3)
      unfolding pr by simp_all
    have v2: "\<And>n. valid h2 n = valid h n" by (simp add: valid_def h2(5) h1_def)
    have p0: "r0 \<noteq> []" "0 \<notin> set r0" "seg (nxt h2) pending r0 0" "pstack h2 (prv h2 pending) rs"
      using ps unfolding pr by simp_all
    have pin: "pending \<in> set r0" using pstack_head[OF ps[unfolded pr]] by blast
    have vp: "valid h2 pending" using pin sc(1) r(4) v2 by auto
    have vall: "\<forall>n \<in> set (r0 @ concat rs). valid h2 n" using r(4) v2 unfolding sc(1) by simp
    from list_sort_final_chain[OF p0(3) p0(1) p0(2) p0(4) pr(2) sc(2) vall, of cmp]
    obtain list' pending' h3 where
      h3: "list_sort_final cmp pending (prv h2 pending) h2 = Some (list', pending', h3)"
          "seg (nxt h3) list' (merge_all cmp r0 (butlast rs)) 0"
          "seg (nxt h3) pending' (last rs) 0" "last rs \<noteq> []" "0 \<notin> set (last rs)"
          "\<forall>n. n \<notin> set (r0 @ concat rs) \<longrightarrow> nxt h3 n = nxt h2 n"
          "prv h3 = prv h2" "val h3 = val h2" "alloc h3 = alloc h2"
      by blast
    define A where "A = last rs"
    define B where "B = merge_all cmp r0 (butlast rs)"
    have rsAB: "rs = butlast rs @ [A]" using pr(2) by (simp add: A_def)
    have sAB: "set A \<union> set B = set xs"
    proof -
      have "set (concat rs) = set (concat (butlast rs)) \<union> set A"
        by (subst rsAB) (simp del: set_concat)
      then show ?thesis using sc(1) by (auto simp: B_def set_merge_all simp del: set_concat)
    qed
    have dAB: "distinct (A @ B)"
    proof -
      have "mset (A @ B) = mset (r0 @ concat rs)"
        by (subst rsAB) (simp add: B_def mset_merge_all)
      then show ?thesis using sc(2) by (metis mset_eq_imp_distinct_iff)
    qed
    have Bne: "B \<noteq> []" using p0(1) by (simp add: B_def merge_all_Nil_iff)
    have dh: "distinct (head # A @ B)" using dAB sAB r(3) by auto
    have zAB: "0 \<notin> set (A @ B)" using z sAB by auto
    have v3: "\<And>n. valid h3 n = valid h n" by (simp add: valid_def h3(9) h2(5) h1_def)
    have vAB: "\<forall>n \<in> set (head # A @ B). valid h3 n" using r(4) sAB v3 by auto
    from merge_final_ring[OF h3(3)[folded A_def] h3(2)[folded B_def] h3(4)[folded A_def] Bne dh zAB vAB, of cmp]
    obtain h4 where
      h4: "merge_final cmp head pending' list' h3 = Some h4"
          "seg (nxt h4) head (head # merge_runs cmp A B) head"
          "seg (prv h4) head (head # rev (merge_runs cmp A B)) head"
          "val h4 = val h3" "alloc h4 = alloc h3"
      by blast
    have sn: "sort_nodes cmp xs = merge_runs cmp A B"
      unfolding sort_nodes_def pr by (subst rsAB) (simp add: merge_all_snoc B_def)
    have call: "list_sort cmp head h = Some h4"
      using vh vl lx vp
      by (simp add: list_sort_def nx' pv' h1_def[symmetric] loop h3(1) h4(1))
    have vv: "val h4 = val h" "alloc h4 = alloc h"
      by (simp_all add: h4(4,5) h3(8,9) h2(4,5) h1_def)
    have "ring h4 head (sort_nodes cmp xs)"
      unfolding ring_def sn[symmetric] using h4(2,3) r(3,4,5) vv dh sAB
      by (simp add: sn valid_def)
    then show ?thesis using call vv by blast
  qed
qed

section \<open>The ring after sorting and reversal\<close>

lemma seg_funpow: "seg f p xs q \<Longrightarrow> (f ^^ length xs) p = q"
  by (induction xs arbitrary: p) (auto simp: funpow_swap1)

lemma ring_links:
  assumes "ring h head xs" "n \<in> set (head # xs)"
  shows "prv h (nxt h n) = n \<and> nxt h (prv h n) = n \<and> (\<exists>k. (nxt h ^^ k) n = head)"
proof (cases "n = head")
  case True
  have a: "prv h (nxt h head) = head"
  proof (cases xs)
    case Nil
    then show ?thesis using ring_head_next[OF assms(1)] ring_head_prev[OF assms(1)] by simp
  next
    case (Cons x ys)
    then have "ring h head ([] @ x # ys)" using assms(1) by simp
    from ring_prev[OF this] show ?thesis using ring_head_next[OF assms(1)] Cons by simp
  qed
  have b: "nxt h (prv h head) = head"
  proof (cases xs rule: rev_cases)
    case Nil
    then show ?thesis using ring_head_next[OF assms(1)] ring_head_prev[OF assms(1)] by simp
  next
    case (snoc ys x)
    then have "ring h head (ys @ x # [])" using assms(1) by simp
    from ring_next[OF this] show ?thesis using ring_head_prev[OF assms(1)] snoc by simp
  qed
  have "(nxt h ^^ 0) head = head" by simp
  then show ?thesis using a b True by blast
next
  case False
  then have "n \<in> set xs" using assms(2) by simp
  then obtain as bs where xs: "xs = as @ n # bs" by (meson split_list)
  have r: "ring h head (as @ n # bs)" using assms(1) xs by simp
  have a: "prv h (nxt h n) = n"
  proof (cases bs)
    case Nil
    then show ?thesis using ring_next[OF r] ring_head_prev[OF r] by simp
  next
    case (Cons b bs')
    then have "ring h head ((as @ [n]) @ b # bs')" using r by simp
    from ring_prev[OF this] show ?thesis using ring_next[OF r] Cons by simp
  qed
  have b: "nxt h (prv h n) = n"
  proof (cases as rule: rev_cases)
    case Nil
    then show ?thesis using ring_prev[OF r] ring_head_next[OF r] by simp
  next
    case (snoc as' a)
    then have "ring h head (as' @ a # (n # bs))" using r by simp
    from ring_next[OF this] show ?thesis using ring_prev[OF r] snoc by simp
  qed
  have "seg (nxt h) head ((head # as) @ n # bs) head" using r by (simp add: ring_def)
  then have "seg (nxt h) (nxt h n) bs head" unfolding seg_mid by simp
  then have "(nxt h ^^ length bs) (nxt h n) = head" by (rule seg_funpow)
  then have "(nxt h ^^ Suc (length bs)) n = head" by (simp add: funpow_swap1)
  then show ?thesis using a b by blast
qed

lemma ring_links_all:
  "ring h head xs \<Longrightarrow>
     \<forall>n \<in> set (head # xs). prv h (nxt h n) = n \<and> nxt h (prv h n) = n \<and> (\<exists>k. (nxt h ^^ k) n = head)"
  using ring_links by blast

text \<open>
  C2: on a well-formed ring \<^verbatim>\<open>q_sort\<close>, \<^verbatim>\<open>list_sort\<close> (with any comparator) and
  \<^verbatim>\<open>q_reverse\<close> return, and leave a well-formed ring of the same nodes: for every node
  \<open>n\<close> of it, the sentinel included, \<^verbatim>\<open>n->next->prev == n\<close> and \<^verbatim>\<open>n->prev->next == n\<close>,
  and following \<^verbatim>\<open>next\<close> links from \<open>n\<close> reaches the sentinel.  (The element counter of
  \<^verbatim>\<open>list_sort\<close> is a \<^verbatim>\<open>size_t\<close>; the list is shorter than \<open>2 ^ 64\<close>.)
\<close>

theorem ring_invariant_restored:
  assumes "ring h head xs" "length xs < 2 ^ 64"
  shows "(\<exists>h' ys. q_sort head descend h = Some h' \<and> ring h' head ys \<and> mset ys = mset xs \<and>
            (\<forall>n \<in> set (head # ys). prv h' (nxt h' n) = n \<and> nxt h' (prv h' n) = n \<and>
               (\<exists>k. (nxt h' ^^ k) n = head))) \<and>
         (\<exists>h' ys. list_sort cmp head h = Some h' \<and> ring h' head ys \<and> mset ys = mset xs \<and>
            (\<forall>n \<in> set (head # ys). prv h' (nxt h' n) = n \<and> nxt h' (prv h' n) = n \<and>
               (\<exists>k. (nxt h' ^^ k) n = head))) \<and>
         (\<exists>h' ys. q_reverse head h = Some h' \<and> ring h' head ys \<and> mset ys = mset xs \<and>
            (\<forall>n \<in> set (head # ys). prv h' (nxt h' n) = n \<and> nxt h' (prv h' n) = n \<and>
               (\<exists>k. (nxt h' ^^ k) n = head)))"
proof (intro conjI)
  from q_sort_ring[OF assms(1), of descend] obtain h' where
    h': "q_sort head descend h = Some h'" "ring h' head (msort_nodes (\<lambda>n. the (val h n)) xs)"
    by blast
  show "\<exists>h' ys. q_sort head descend h = Some h' \<and> ring h' head ys \<and> mset ys = mset xs \<and>
            (\<forall>n \<in> set (head # ys). prv h' (nxt h' n) = n \<and> nxt h' (prv h' n) = n \<and>
               (\<exists>k. (nxt h' ^^ k) n = head))"
    using h' ring_links_all[OF h'(2)] mset_msort_nodes[of "\<lambda>n. the (val h n)" xs]
    by blast
next
  from list_sort_ring[OF assms, of cmp] obtain h' where
    h': "list_sort cmp head h = Some h'" "ring h' head (sort_nodes cmp xs)"
    by blast
  show "\<exists>h' ys. list_sort cmp head h = Some h' \<and> ring h' head ys \<and> mset ys = mset xs \<and>
            (\<forall>n \<in> set (head # ys). prv h' (nxt h' n) = n \<and> nxt h' (prv h' n) = n \<and>
               (\<exists>k. (nxt h' ^^ k) n = head))"
    using h' ring_links_all[OF h'(2)] mset_sort_nodes[of cmp xs]
    by blast
next
  from q_reverse_ring[OF assms(1)] obtain h' where
    h': "q_reverse head h = Some h'" "ring h' head (rev xs)"
    by blast
  have m: "mset (rev xs) = mset xs" by simp
  show "\<exists>h' ys. q_reverse head h = Some h' \<and> ring h' head ys \<and> mset ys = mset xs \<and>
            (\<forall>n \<in> set (head # ys). prv h' (nxt h' n) = n \<and> nxt h' (prv h' n) = n \<and>
               (\<exists>k. (nxt h' ^^ k) n = head))"
    using h' ring_links_all[OF h'(2)] m
    by blast
qed

theorem ring_invariant_restored_witness:
  "ring (queue_of [''c'', ''a'', ''d'', ''b'']) 1 [2, 3, 4, 5] \<and>
   length [2, 3, 4, 5 :: nat] < 2 ^ 64 \<and>
   (\<exists>h' ys. list_sort (\<lambda>a b. int a - int b) 1 (queue_of [''c'', ''a'', ''d'', ''b'']) = Some h' \<and>
      ring h' 1 ys \<and> mset ys = mset [2, 3, 4, 5])"
proof -
  let ?q = "queue_of [''c'', ''a'', ''d'', ''b'']"
  have r: "ring ?q 1 [2, 3, 4, 5]" by (rule ring_sample_4) simp
  have l: "length [2, 3, 4, 5 :: nat] < 2 ^ 64" by simp
  from ring_invariant_restored[OF r l, of False "\<lambda>a b. int a - int b"] r l
  show ?thesis by blast
qed

section \<open>Stability of the natural merge sort\<close>

lemma cmp_contract_total: "cmp_contract cmp S \<Longrightarrow> a \<in> S \<Longrightarrow> b \<in> S \<Longrightarrow> \<not> cmp a b \<le> 0 \<Longrightarrow> cmp b a \<le> 0"
  unfolding cmp_contract_def by (meson not_le)

lemma cmp_contract_trans:
  "cmp_contract cmp S \<Longrightarrow> a \<in> S \<Longrightarrow> b \<in> S \<Longrightarrow> c \<in> S \<Longrightarrow> cmp a b \<le> 0 \<Longrightarrow> cmp b c \<le> 0 \<Longrightarrow> cmp a c \<le> 0"
  unfolding cmp_contract_def by blast

lemma cmp_contract_mono: "cmp_contract cmp S \<Longrightarrow> T \<subseteq> S \<Longrightarrow> cmp_contract cmp T"
  unfolding cmp_contract_def by blast

lemma sorted_merge_runs:
  assumes "cmp_contract cmp S" "set as \<subseteq> S" "set bs \<subseteq> S"
    "sorted_wrt (\<lambda>a b. cmp a b \<le> 0) as" "sorted_wrt (\<lambda>a b. cmp a b \<le> 0) bs"
  shows "sorted_wrt (\<lambda>a b. cmp a b \<le> 0) (merge_runs cmp as bs)"
  using assms
proof (induction cmp as bs rule: merge_runs.induct)
  case (3 cmp a as b bs)
  show ?case
  proof (cases "cmp a b \<le> 0")
    case True
    have "\<forall>y \<in> set (b # bs). cmp a y \<le> 0"
    proof
      fix y assume y: "y \<in> set (b # bs)"
      show "cmp a y \<le> 0"
      proof (cases "y = b")
        case True
        then show ?thesis using \<open>cmp a b \<le> 0\<close> by simp
      next
        case False
        then have "cmp b y \<le> 0" "y \<in> S" using y "3.prems"(3,5) by auto
        then show ?thesis
          using cmp_contract_trans[OF "3.prems"(1), of a b y] True "3.prems"(2,3) by simp
      qed
    qed
    then show ?thesis using True 3 by auto
  next
    case False
    have ba: "cmp b a \<le> 0"
      using cmp_contract_total[OF "3.prems"(1), of a b] False "3.prems"(2,3) by simp
    have "\<forall>y \<in> set (a # as). cmp b y \<le> 0"
    proof
      fix y assume y: "y \<in> set (a # as)"
      show "cmp b y \<le> 0"
      proof (cases "y = a")
        case True
        then show ?thesis using ba by simp
      next
        case False
        then have "cmp a y \<le> 0" "y \<in> S" using y "3.prems"(2,4) by auto
        then show ?thesis
          using cmp_contract_trans[OF "3.prems"(1), of b a y] ba "3.prems"(2,3) by simp
      qed
    qed
    then show ?thesis using False 3 by auto
  qed
qed simp_all

lemma stable_merge_runs:
  assumes "cmp_contract cmp S" "set as \<subseteq> S" "set bs \<subseteq> S" "x \<in> S"
    "sorted_wrt (\<lambda>a b. cmp a b \<le> 0) as"
  shows "filter (cmp_equal cmp x) (merge_runs cmp as bs) =
           filter (cmp_equal cmp x) as @ filter (cmp_equal cmp x) bs"
  using assms
proof (induction cmp as bs rule: merge_runs.induct)
  case (3 cmp a as b bs)
  show ?case
  proof (cases "cmp a b \<le> 0")
    case True
    then show ?thesis using 3 by simp
  next
    case False
    have ih: "filter (cmp_equal cmp x) (merge_runs cmp (a # as) bs) =
                filter (cmp_equal cmp x) (a # as) @ filter (cmp_equal cmp x) bs"
      using 3 False by simp
    show ?thesis
    proof (cases "cmp_equal cmp x b")
      case False
      then show ?thesis using ih \<open>\<not> cmp a b \<le> 0\<close> by simp
    next
      case True
      have "filter (cmp_equal cmp x) (a # as) = []"
      proof (rule ccontr)
        assume "filter (cmp_equal cmp x) (a # as) \<noteq> []"
        then obtain y where y: "y \<in> set (a # as)" "cmp_equal cmp x y"
          by (metis filter_False)
        have yS: "y \<in> S" "a \<in> S" "b \<in> S" using y(1) "3.prems"(2,3) by auto
        have ay: "cmp a y \<le> 0"
        proof (cases "y = a")
          case True
          show ?thesis
            using cmp_contract_total[OF "3.prems"(1), of a a] yS True by auto
        next
          case False
          then show ?thesis using y(1) "3.prems"(5) by auto
        qed
        have "cmp y b \<le> 0"
          using cmp_contract_trans[OF "3.prems"(1), of y x b] y(2) True yS "3.prems"(4)
          by (simp add: cmp_equal_def)
        then have "cmp a b \<le> 0"
          using cmp_contract_trans[OF "3.prems"(1), of a y b] ay yS by simp
        then show False using \<open>\<not> cmp a b \<le> 0\<close> by simp
      qed
      then show ?thesis using ih \<open>\<not> cmp a b \<le> 0\<close> True by simp
    qed
  qed
qed simp_all

lemma stable_runs_merge_at:
  assumes "cmp_contract cmp S" "stable_runs cmp S xs rs"
  shows "stable_runs cmp S xs (merge_at cmp bits rs)"
  using assms
proof (induction cmp bits rs arbitrary: xs rule: merge_at.induct)
  case (1 cmp bits)
  then show ?case by simp
next
  case (2 cmp bits r rs)
  show ?case
  proof (cases "bits mod 2 = 1")
    case True
    have a: "\<forall>r \<in> set (r # rs). sorted_wrt (\<lambda>a b. cmp a b \<le> 0) r \<and> set r \<subseteq> S"
      and b: "\<forall>x \<in> S. filter (cmp_equal cmp x) (concat (rev rs) @ r) = filter (cmp_equal cmp x) xs"
      using "2.prems"(2) by (simp_all add: stable_runs_def)
    have "stable_runs cmp S (concat (rev rs)) rs" using a by (simp add: stable_runs_def)
    from "2.IH"[OF True "2.prems"(1) this]
    have c: "stable_runs cmp S (concat (rev rs)) (merge_at cmp (bits div 2) rs)" .
    show ?thesis
      using True a b c by (simp add: stable_runs_def)
  next
    case False
    show ?thesis
    proof (cases "bits = 0")
      case True
      then show ?thesis using False "2.prems"(2) by simp
    next
      case nz: False
      show ?thesis
      proof (cases rs)
        case Nil
        then show ?thesis using False nz "2.prems"(2) by simp
      next
        case (Cons b rs')
        have a: "sorted_wrt (\<lambda>a b. cmp a b \<le> 0) r" "set r \<subseteq> S"
            "sorted_wrt (\<lambda>a b. cmp a b \<le> 0) b" "set b \<subseteq> S"
            "\<forall>r \<in> set rs'. sorted_wrt (\<lambda>a b. cmp a b \<le> 0) r \<and> set r \<subseteq> S"
          and f: "\<forall>x \<in> S. filter (cmp_equal cmp x) (concat (rev rs') @ b @ r) = filter (cmp_equal cmp x) xs"
          using "2.prems"(2) Cons by (simp_all add: stable_runs_def)
        have s: "sorted_wrt (\<lambda>a b. cmp a b \<le> 0) (merge_runs cmp b r)"
          by (rule sorted_merge_runs[OF "2.prems"(1) a(4) a(2) a(3) a(1)])
        have m: "\<forall>x \<in> S. filter (cmp_equal cmp x) (merge_runs cmp b r) =
                   filter (cmp_equal cmp x) b @ filter (cmp_equal cmp x) r"
          using stable_merge_runs[OF "2.prems"(1) a(4) a(2) _ a(3)] by blast
        show ?thesis
          using False nz Cons a s m f by (simp add: stable_runs_def)
      qed
    qed
  qed
qed

lemma stable_pending_runs:
  assumes "cmp_contract cmp S" "set xs \<subseteq> S"
  shows "stable_runs cmp S xs (pending_runs cmp xs)"
  using assms(2)
proof (induction xs rule: rev_induct)
  case Nil
  then show ?case by (simp add: pending_runs_def stable_runs_def)
next
  case (snoc x xs)
  then have "stable_runs cmp S xs (pending_runs cmp xs)" by simp
  from stable_runs_merge_at[OF assms(1) this, of "length xs"]
  have "stable_runs cmp S xs (merge_at cmp (length xs) (pending_runs cmp xs))" .
  then show ?case using snoc.prems
    by (simp add: pending_runs_snoc pending_runs_length_concat stable_runs_def)
qed

lemma stable_merge_all:
  assumes "cmp_contract cmp S" "stable_runs cmp S xs (acc # rs)"
  shows "sorted_wrt (\<lambda>a b. cmp a b \<le> 0) (merge_all cmp acc rs) \<and>
         (\<forall>x \<in> S. filter (cmp_equal cmp x) (merge_all cmp acc rs) = filter (cmp_equal cmp x) xs)"
  using assms(2)
proof (induction rs arbitrary: acc)
  case Nil
  then show ?case by (simp add: stable_runs_def)
next
  case (Cons r rs)
  have a: "sorted_wrt (\<lambda>a b. cmp a b \<le> 0) acc" "set acc \<subseteq> S"
      "sorted_wrt (\<lambda>a b. cmp a b \<le> 0) r" "set r \<subseteq> S"
      "\<forall>r \<in> set rs. sorted_wrt (\<lambda>a b. cmp a b \<le> 0) r \<and> set r \<subseteq> S"
    and f: "\<forall>x \<in> S. filter (cmp_equal cmp x) (concat (rev rs) @ r @ acc) = filter (cmp_equal cmp x) xs"
    using Cons.prems by (simp_all add: stable_runs_def)
  have s: "sorted_wrt (\<lambda>a b. cmp a b \<le> 0) (merge_runs cmp r acc)"
    by (rule sorted_merge_runs[OF assms(1) a(4) a(2) a(3) a(1)])
  have m: "\<forall>x \<in> S. filter (cmp_equal cmp x) (merge_runs cmp r acc) =
             filter (cmp_equal cmp x) r @ filter (cmp_equal cmp x) acc"
    using stable_merge_runs[OF assms(1) a(4) a(2) _ a(3)] by blast
  have "stable_runs cmp S xs (merge_runs cmp r acc # rs)"
    using a s m f by (simp add: stable_runs_def)
  from Cons.IH[OF this] show ?case by simp
qed

lemma stable_sort_nodes:
  assumes "cmp_contract cmp S" "set xs \<subseteq> S"
  shows "sorted_wrt (\<lambda>a b. cmp a b \<le> 0) (sort_nodes cmp xs) \<and>
         (\<forall>x \<in> S. filter (cmp_equal cmp x) (sort_nodes cmp xs) = filter (cmp_equal cmp x) xs)"
proof (cases "pending_runs cmp xs")
  case Nil
  then have "xs = []" using pending_runs_length_concat[of cmp xs] by simp
  then show ?thesis by (simp add: sort_nodes_def pending_runs_def)
next
  case (Cons r rs)
  have "stable_runs cmp S xs (r # rs)" using stable_pending_runs[OF assms] Cons by simp
  from stable_merge_all[OF assms(1) this] show ?thesis by (simp add: sort_nodes_def Cons)
qed

text \<open>
  C4: \<^verbatim>\<open>merge\<close> takes the head \<open>a\<close> of its first (older) chain whenever
  \<open>cmp a b \<le> 0\<close>, ties included, and returns the left-biased merge of the two chains.
  With a comparator that satisfies the contract on the elements of a well-formed ring
  (shorter than \<open>2 ^ 64\<close>, the range of the element counter), \<^verbatim>\<open>list_sort\<close> returns and
  leaves a ring of the same elements that is sorted, \<open>cmp a b \<le> 0\<close> for every \<open>a\<close> before
  \<open>b\<close>, and stable: the elements that compare equal to any given element are in the
  order they had in the input.
\<close>

theorem list_sort_stable:
  assumes "ring h head xs" "length xs < 2 ^ 64" "cmp_contract cmp (set xs)"
  shows "(\<exists>h' ys. list_sort cmp head h = Some h' \<and> ring h' head ys \<and> val h' = val h \<and>
            mset ys = mset xs \<and> sorted_wrt (\<lambda>a b. cmp a b \<le> 0) ys \<and>
            (\<forall>x \<in> set xs. filter (cmp_equal cmp x) ys = filter (cmp_equal cmp x) xs)) \<and>
         (seg (nxt g) a (a # as) 0 \<and> seg (nxt g) b (b # bs) 0 \<and> distinct (a # as @ b # bs) \<and>
          0 \<notin> set (a # as @ b # bs) \<and> (\<forall>n \<in> set (a # as @ b # bs). valid g n) \<and>
          cmp a b \<le> 0 \<longrightarrow>
            (\<exists>g'. merge cmp a b g = Some (a, g') \<and>
               seg (nxt g') a (a # merge_runs cmp as (b # bs)) 0))"
proof (intro conjI impI)
  from list_sort_ring[OF assms(1,2), of cmp] obtain h' where
    h': "list_sort cmp head h = Some h'" "ring h' head (sort_nodes cmp xs)" "val h' = val h"
    by blast
  have s: "sorted_wrt (\<lambda>a b. cmp a b \<le> 0) (sort_nodes cmp xs)"
    "\<forall>x \<in> set xs. filter (cmp_equal cmp x) (sort_nodes cmp xs) = filter (cmp_equal cmp x) xs"
    using stable_sort_nodes[OF assms(3) subset_refl] by blast+
  show "\<exists>h' ys. list_sort cmp head h = Some h' \<and> ring h' head ys \<and> val h' = val h \<and>
            mset ys = mset xs \<and> sorted_wrt (\<lambda>a b. cmp a b \<le> 0) ys \<and>
            (\<forall>x \<in> set xs. filter (cmp_equal cmp x) ys = filter (cmp_equal cmp x) xs)"
    using h' s mset_sort_nodes[of cmp xs] by blast
next
  assume a: "seg (nxt g) a (a # as) 0 \<and> seg (nxt g) b (b # bs) 0 \<and> distinct (a # as @ b # bs) \<and>
          0 \<notin> set (a # as @ b # bs) \<and> (\<forall>n \<in> set (a # as @ b # bs). valid g n) \<and>
          cmp a b \<le> 0"
  then have p: "seg (nxt g) a (a # as) 0" "seg (nxt g) b (b # bs) 0" "a # as \<noteq> []" "b # bs \<noteq> []"
    "distinct ((a # as) @ b # bs)" "0 \<notin> set ((a # as) @ b # bs)"
    "\<forall>n \<in> set ((a # as) @ b # bs). valid g n"
    by simp_all
  from merge_chain[OF p, of cmp] obtain r g' where
    g': "merge cmp a b g = Some (r, g')" "seg (nxt g') r (merge_runs cmp (a # as) (b # bs)) 0"
    by blast
  have m: "merge_runs cmp (a # as) (b # bs) = a # merge_runs cmp as (b # bs)" using a by simp
  have "r = a" using g'(2) unfolding m by simp
  then show "\<exists>g'. merge cmp a b g = Some (a, g') \<and> seg (nxt g') a (a # merge_runs cmp as (b # bs)) 0"
    using g' unfolding m by blast
qed

theorem list_sort_stable_witness:
  "ring (queue_of [''c'', ''a'', ''d'', ''b'']) 1 [2, 3, 4, 5] \<and>
   length [2, 3, 4, 5 :: nat] < 2 ^ 64 \<and>
   cmp_contract (\<lambda>a b. int (a mod 2) - int (b mod 2)) (set [2, 3, 4, 5]) \<and>
   (\<exists>h' ys. list_sort (\<lambda>a b. int (a mod 2) - int (b mod 2)) 1
        (queue_of [''c'', ''a'', ''d'', ''b'']) = Some h' \<and>
      ring h' 1 ys \<and> sorted_wrt (\<lambda>a b. int (a mod 2) - int (b mod 2) \<le> 0) ys \<and>
      filter (cmp_equal (\<lambda>a b. int (a mod 2) - int (b mod 2)) 2) ys = [2, 4]) \<and>
   (\<exists>g'. merge (\<lambda>a b. int (a mod 2) - int (b mod 2)) 2 3
        ((queue_of [''x'', ''y''])\<lparr>nxt := (\<lambda>p. 0)\<rparr>) = Some (2, g'))"
proof -
  let ?q = "queue_of [''c'', ''a'', ''d'', ''b'']"
  let ?g = "(queue_of [''x'', ''y''])\<lparr>nxt := (\<lambda>p. 0)\<rparr>"
  let ?c = "\<lambda>a b :: nat. int (a mod 2) - int (b mod 2)"
  have r: "ring ?q 1 [2, 3, 4, 5]" by (rule ring_sample_4) simp
  have l: "length [2, 3, 4, 5 :: nat] < 2 ^ 64" by simp
  have c: "cmp_contract ?c (set [2, 3, 4, 5])" by (simp add: cmp_contract_def)
  have f: "filter (cmp_equal ?c 2) [2, 3, 4, 5] = [2, 4]" by (simp add: cmp_equal_def)
  have m: "seg (nxt ?g) 2 (2 # []) 0 \<and> seg (nxt ?g) 3 (3 # []) 0 \<and> distinct (2 # [] @ 3 # [] :: nat list) \<and>
          0 \<notin> set (2 # [] @ 3 # [] :: nat list) \<and> (\<forall>n \<in> set (2 # [] @ 3 # []). valid ?g n) \<and>
          ?c 2 3 \<le> 0"
    by (simp add: queue_of_def valid_def)
  from list_sort_stable[OF r l c, of ?g 2 "[]" 3 "[]"] m
  have "(\<exists>h' ys. list_sort ?c 1 ?q = Some h' \<and> ring h' 1 ys \<and> val h' = val ?q \<and>
            mset ys = mset [2, 3, 4, 5] \<and> sorted_wrt (\<lambda>a b. ?c a b \<le> 0) ys \<and>
            (\<forall>x \<in> set [2, 3, 4, 5]. filter (cmp_equal ?c x) ys = filter (cmp_equal ?c x) [2, 3, 4, 5]))"
    "(\<exists>g'. merge ?c 2 3 ?g = Some (2, g') \<and> seg (nxt g') 2 (2 # merge_runs ?c [] (3 # [])) 0)"
    by blast+
  then obtain h' ys g' where
    "list_sort ?c 1 ?q = Some h'" "ring h' 1 ys" "sorted_wrt (\<lambda>a b. ?c a b \<le> 0) ys"
    "filter (cmp_equal ?c 2) ys = filter (cmp_equal ?c 2) [2, 3, 4, 5]"
    "merge ?c 2 3 ?g = Some (2, g')"
    by auto
  then show ?thesis using r l c unfolding f by blast
qed

section \<open>The invariant of the pending stack\<close>

lemma seg_null_unique:
  "seg f p r 0 \<Longrightarrow> 0 \<notin> set r \<Longrightarrow> seg f p r' 0 \<Longrightarrow> 0 \<notin> set r' \<Longrightarrow> r = r'"
proof (induction r arbitrary: p r')
  case Nil
  then show ?case by (cases r') auto
next
  case (Cons x xs)
  then show ?case by (cases r') auto
qed

lemma pstack_unique: "pstack h p rs \<Longrightarrow> pstack h p rs' \<Longrightarrow> rs = rs'"
proof (induction rs arbitrary: p rs')
  case Nil
  then show ?case
  proof (cases rs')
    case (Cons r' rs'')
    then have "p \<in> set r'" "0 \<notin> set r'" using Nil(2) pstack_head[of h p r' rs''] by auto
    then show ?thesis using Nil(1) by simp
  qed simp
next
  case (Cons r rs)
  have p: "p \<in> set r" "0 \<notin> set r" using Cons.prems(1) pstack_head[of h p r rs] by auto
  show ?case
  proof (cases rs')
    case Nil
    then show ?thesis using Cons.prems(2) p by auto
  next
    case c: (Cons r' rs'')
    have "r = r'" using Cons.prems c by (auto intro: seg_null_unique)
    moreover have "rs = rs''" using Cons.prems c Cons.IH[of "prv h p" rs''] by simp
    ultimately show ?thesis using c by simp
  qed
qed

lemma segmented_merge_at:
  "segmented xs segs rs \<Longrightarrow> \<exists>segs'. segmented xs segs' (merge_at cmp bits rs)"
proof (induction cmp bits rs arbitrary: xs segs rule: merge_at.induct)
  case (1 cmp bits)
  then show ?case by auto
next
  case (2 cmp bits r rs)
  from "2.prems" obtain s0 sr where s: "segs = s0 @ [sr]" "map mset s0 = map mset (rev rs)"
    "mset sr = mset r" "concat s0 @ sr = xs"
    by (cases segs rule: rev_cases) (auto simp: segmented_def)
  show ?case
  proof (cases "bits mod 2 = 1")
    case True
    have "segmented (concat s0) s0 rs" using s(2) by (simp add: segmented_def)
    from "2.IH"[OF True this] obtain s0' where
      "segmented (concat s0) s0' (merge_at cmp (bits div 2) rs)" by blast
    then have "segmented xs (s0' @ [sr]) (r # merge_at cmp (bits div 2) rs)"
      using s(3,4) by (simp add: segmented_def)
    then show ?thesis using True by auto
  next
    case False
    show ?thesis
    proof (cases "bits = 0 \<or> rs = []")
      case True
      then show ?thesis using False "2.prems" by (cases rs) auto
    next
      case nz: False
      then obtain b rs' where rs: "rs = b # rs'" by (cases rs) auto
      from s(2) rs obtain s1 sb where s1: "s0 = s1 @ [sb]" "map mset s1 = map mset (rev rs')"
        "mset sb = mset b"
        by (cases s0 rule: rev_cases) auto
      have "segmented xs (s1 @ [sb @ sr]) (merge_runs cmp b r # rs')"
        using s s1 by (simp add: segmented_def)
      then show ?thesis using False nz rs by auto
    qed
  qed
qed

lemma segmented_pending_runs: "\<exists>segs. segmented xs segs (pending_runs cmp xs)"
proof (induction xs rule: rev_induct)
  case Nil
  have "segmented [] [] (pending_runs cmp [])" by (simp add: segmented_def pending_runs_def)
  then show ?case by blast
next
  case (snoc x xs)
  then obtain segs where "segmented xs segs (pending_runs cmp xs)" by blast
  from segmented_merge_at[OF this, of cmp "length xs"] obtain segs' where
    "segmented xs segs' (merge_at cmp (length xs) (pending_runs cmp xs))" by blast
  then have "segmented (xs @ [x]) (segs' @ [[x]]) (pending_runs cmp (xs @ [x]))"
    by (simp add: segmented_def pending_runs_snoc pending_runs_length_concat)
  then show ?case by blast
qed

lemma list_sort_start_state:
  assumes "ring h head xs" "xs \<noteq> []"
  shows "sort_state cmp [] xs (nxt h head, 0, 0, h\<lparr>nxt := (nxt h)(prv h head := 0)\<rparr>)"
proof -
  have r: "seg (nxt h) head (head # xs) head" "distinct (head # xs)"
    "\<forall>n \<in> set (head # xs). valid h n"
    using assms(1) unfolding ring_def by blast+
  obtain x ys where xs: "xs = x # ys" using assms(2) by (cases xs) auto
  define l where "l = last xs"
  obtain bs where bs: "xs = bs @ [l]" using assms(2) l_def by (metis append_butlast_last_id)
  have nx: "nxt h head = x" using ring_head_next[OF assms(1)] xs by simp
  have pv: "prv h head = l" using ring_head_prev[OF assms(1)] assms(2) by (simp add: l_def)
  have z: "0 \<notin> set xs" using r(3) by (auto simp: valid_def)
  have lb: "l \<notin> set bs" using r(2) bs by auto
  define h1 where "h1 = h\<lparr>nxt := (nxt h)(l := 0)\<rparr>"
  have s0: "seg (nxt h) x xs head" using r(1) xs by simp
  have s1: "seg (nxt h1) x xs 0"
  proof -
    have "seg (nxt h) x bs l" using s0 bs by (simp add: seg_snoc)
    then have "seg (nxt h1) x bs l" using lb by (simp add: h1_def seg_upd)
    then show ?thesis unfolding bs by (simp add: seg_snoc h1_def)
  qed
  have v1: "\<And>n. valid h1 n = valid h n" by (simp add: h1_def valid_def)
  have "sort_state cmp [] xs (x, 0, 0, h1)"
    using s1 z r(2,3) by (simp add: sort_state_def pending_runs_def v1)
  then show ?thesis by (simp add: nx pv h1_def)
qed

lemma list_sort_rounds_ring:
  assumes "ring h head xs" "xs \<noteq> []" "length xs < 2 ^ 64" "k \<le> length xs"
  shows "\<exists>list pending h'.
           list_sort_rounds cmp k (nxt h head, 0, 0, h\<lparr>nxt := (nxt h)(prv h head := 0)\<rparr>) =
             Some (list, pending, k, h') \<and>
           pstack h' pending (pending_runs cmp (take k xs))"
proof -
  have len: "length ([] @ xs) < 2 ^ 64" using assms(3) by simp
  from list_sort_rounds_state[OF list_sort_start_state[OF assms(1,2)] assms(4) len, of cmp]
  obtain list pending h' where
    h': "list_sort_rounds cmp k (nxt h head, 0, 0, h\<lparr>nxt := (nxt h)(prv h head := 0)\<rparr>) =
           Some (list, pending, k, h')"
        "sort_state cmp (take k xs) (drop k xs) (list, pending, k, h')"
    by auto
  from h'(2) have "pstack h' pending (pending_runs cmp (take k xs))"
    by (simp add: sort_state_def)
  then show ?thesis using h'(1) by blast
qed

lemma pending_runs_shape:
  assumes "k \<le> length xs"
  shows "map length (pending_runs cmp (take k xs)) = pending_sizes k \<and>
         sum_list (map length (pending_runs cmp (take k xs))) = k \<and>
         (\<forall>s \<in> set (map length (pending_runs cmp (take k xs))). \<exists>j. s = 2 ^ j) \<and>
         (\<forall>s. count_list (map length (pending_runs cmp (take k xs))) s \<le> 2) \<and>
         sorted (map length (pending_runs cmp (take k xs)))"
proof -
  have "map length (pending_runs cmp (take k xs)) = pending_sizes k"
    using assms by (simp add: pending_runs_sizes)
  then show ?thesis
    using sum_pending_sizes[of k] pending_sizes_pow2[of _ k] pending_sizes_at_most_two[of k]
      sorted_pending_sizes[of k]
    by simp
qed

lemma ring_sample_3: "length vs = 3 \<Longrightarrow> ring (queue_of vs) 1 [2, 3, 4]"
  by (simp add: ring_def queue_of_def valid_def)

lemma pending_runs_take_sorted:
  assumes "cmp_contract cmp (set xs)"
  shows "\<forall>r \<in> set (pending_runs cmp (take k xs)). sorted_wrt (\<lambda>a b. cmp a b \<le> 0) r"
  using stable_pending_runs[OF assms set_take_subset, of k] by (simp add: stable_runs_def)

text \<open>
  C5, as it holds: \<^verbatim>\<open>list_sort\<close> enters its main loop on a ring of two or more elements
  (fewer than \<open>2 ^ 64\<close>) with the state \<open>(head->next, NULL, 0)\<close> after cutting the ring at
  its last element, and the loop makes one round for each element.  After \<open>k\<close> rounds,
  for every comparator, the counter is \<open>k\<close> and \<^verbatim>\<open>pending\<close> is a stack of runs whose
  sizes, front to back, are \<open>pending_sizes k\<close>: they add up to \<open>k\<close>, each is a power of
  two, no size occurs more than twice, they are in non-decreasing order, and the runs
  read from the back to the front are made of consecutive segments of the first \<open>k\<close>
  elements of the input (the oldest run is at the back).  Every run is sorted when the
  comparator satisfies the contract on the elements of the ring.
\<close>

theorem pending_stack_invariant:
  assumes "ring h head xs" "2 \<le> length xs" "length xs < 2 ^ 64" "k \<le> length xs"
  shows "list_sort_loop cmp (nxt h head, 0, 0, h\<lparr>nxt := (nxt h)(prv h head := 0)\<rparr>) =
           list_sort_rounds cmp (length xs) (nxt h head, 0, 0, h\<lparr>nxt := (nxt h)(prv h head := 0)\<rparr>) \<and>
         (\<exists>list pending h' rs segs.
            list_sort_rounds cmp k (nxt h head, 0, 0, h\<lparr>nxt := (nxt h)(prv h head := 0)\<rparr>) =
              Some (list, pending, k, h') \<and>
            pstack h' pending rs \<and>
            map length rs = pending_sizes k \<and>
            sum_list (map length rs) = k \<and>
            (\<forall>s \<in> set (map length rs). \<exists>j. s = 2 ^ j) \<and>
            (\<forall>s. count_list (map length rs) s \<le> 2) \<and>
            sorted (map length rs) \<and>
            segmented (take k xs) segs rs \<and>
            (cmp_contract cmp (set xs) \<longrightarrow> (\<forall>r \<in> set rs. sorted_wrt (\<lambda>a b. cmp a b \<le> 0) r)))"
proof
  have ne: "xs \<noteq> []" using assms(2) by auto
  have len: "length ([] @ xs) < 2 ^ 64" using assms(3) by simp
  show "list_sort_loop cmp (nxt h head, 0, 0, h\<lparr>nxt := (nxt h)(prv h head := 0)\<rparr>) =
           list_sort_rounds cmp (length xs) (nxt h head, 0, 0, h\<lparr>nxt := (nxt h)(prv h head := 0)\<rparr>)"
    by (rule list_sort_loop_rounds[OF list_sort_start_state[OF assms(1) ne] ne len])
  define rs where "rs = pending_runs cmp (take k xs)"
  from list_sort_rounds_ring[OF assms(1) ne assms(3,4), of cmp] obtain list pending h' where
    h': "list_sort_rounds cmp k (nxt h head, 0, 0, h\<lparr>nxt := (nxt h)(prv h head := 0)\<rparr>) =
           Some (list, pending, k, h')"
        "pstack h' pending rs"
    unfolding rs_def by blast
  obtain segs where sg: "segmented (take k xs) segs rs"
    using segmented_pending_runs[of "take k xs" cmp] unfolding rs_def by blast
  have sh: "map length rs = pending_sizes k" "sum_list (map length rs) = k"
    "\<forall>s \<in> set (map length rs). \<exists>j. s = 2 ^ j" "\<forall>s. count_list (map length rs) s \<le> 2"
    "sorted (map length rs)"
    using pending_runs_shape[OF assms(4), of cmp] unfolding rs_def by blast+
  have so: "cmp_contract cmp (set xs) \<longrightarrow> (\<forall>r \<in> set rs. sorted_wrt (\<lambda>a b. cmp a b \<le> 0) r)"
    using pending_runs_take_sorted[of cmp xs k] unfolding rs_def by blast
  show "\<exists>list pending h' rs segs.
            list_sort_rounds cmp k (nxt h head, 0, 0, h\<lparr>nxt := (nxt h)(prv h head := 0)\<rparr>) =
              Some (list, pending, k, h') \<and>
            pstack h' pending rs \<and>
            map length rs = pending_sizes k \<and>
            sum_list (map length rs) = k \<and>
            (\<forall>s \<in> set (map length rs). \<exists>j. s = 2 ^ j) \<and>
            (\<forall>s. count_list (map length rs) s \<le> 2) \<and>
            sorted (map length rs) \<and>
            segmented (take k xs) segs rs \<and>
            (cmp_contract cmp (set xs) \<longrightarrow> (\<forall>r \<in> set rs. sorted_wrt (\<lambda>a b. cmp a b \<le> 0) r))"
    apply (rule exI[of _ list], rule exI[of _ pending], rule exI[of _ h'], rule exI[of _ rs],
        rule exI[of _ segs])
    using h' sg sh so by blast
qed

theorem pending_stack_invariant_witness:
  "ring (queue_of [''c'', ''a'', ''d'', ''b'']) 1 [2, 3, 4, 5] \<and>
   2 \<le> length [2, 3, 4, 5 :: nat] \<and> length [2, 3, 4, 5 :: nat] < 2 ^ 64 \<and>
   3 \<le> length [2, 3, 4, 5 :: nat] \<and>
   cmp_contract (\<lambda>a b. int a - int b) (set [2, 3, 4, 5]) \<and>
   (\<exists>list pending h' rs.
      list_sort_rounds (\<lambda>a b. int a - int b) 3
        (nxt (queue_of [''c'', ''a'', ''d'', ''b'']) 1, 0, 0,
         (queue_of [''c'', ''a'', ''d'', ''b''])
           \<lparr>nxt := (nxt (queue_of [''c'', ''a'', ''d'', ''b'']))
              (prv (queue_of [''c'', ''a'', ''d'', ''b'']) 1 := 0)\<rparr>) =
        Some (list, pending, 3, h') \<and>
      pstack h' pending rs \<and> map length rs = [1, 2] \<and>
      (\<forall>r \<in> set rs. sorted_wrt (\<lambda>a b. int a - int b \<le> 0) r))"
proof -
  let ?q = "queue_of [''c'', ''a'', ''d'', ''b'']"
  let ?c = "\<lambda>a b :: nat. int a - int b"
  have r: "ring ?q 1 [2, 3, 4, 5]" by (rule ring_sample_4) simp
  have l: "2 \<le> length [2, 3, 4, 5 :: nat]" "length [2, 3, 4, 5 :: nat] < 2 ^ 64"
    "3 \<le> length [2, 3, 4, 5 :: nat]"
    by simp_all
  have c: "cmp_contract ?c (set [2, 3, 4, 5])" by (simp add: cmp_contract_def)
  have p: "pending_sizes 3 = [1, 2]" by (simp add: pending_sizes.simps)
  from pending_stack_invariant[OF r l, of ?c] obtain list pending h' rs where
    a: "list_sort_rounds ?c 3 (nxt ?q 1, 0, 0, ?q\<lparr>nxt := (nxt ?q)(prv ?q 1 := 0)\<rparr>) =
          Some (list, pending, 3, h')"
       "pstack h' pending rs" "map length rs = pending_sizes 3"
       "cmp_contract ?c (set [2, 3, 4, 5]) \<longrightarrow> (\<forall>r \<in> set rs. sorted_wrt (\<lambda>a b. ?c a b \<le> 0) r)"
    by blast
  have b: "\<forall>r \<in> set rs. sorted_wrt (\<lambda>a b. ?c a b \<le> 0) r" using a(4) c by (rule mp)
  have "\<exists>list pending h' rs.
      list_sort_rounds ?c 3 (nxt ?q 1, 0, 0, ?q\<lparr>nxt := (nxt ?q)(prv ?q 1 := 0)\<rparr>) =
        Some (list, pending, 3, h') \<and>
      pstack h' pending rs \<and> map length rs = [1, 2] \<and>
      (\<forall>r \<in> set rs. sorted_wrt (\<lambda>a b. ?c a b \<le> 0) r)"
    apply (rule exI[of _ list], rule exI[of _ pending], rule exI[of _ h'], rule exI[of _ rs])
    using a(1,2) a(3)[unfolded p] b by simp
  with r l c show ?thesis by (intro conjI)
qed

text \<open>
  C5 as stated does not hold.  After two rounds on the ring of the elements 2, 3, 4
  the counter is 2 and the pending stack holds exactly the two runs \<open>[3]\<close> and \<open>[2]\<close>, of
  sizes 1 and 1, where the set bits of 2 give a single run of size 2.  And with the
  comparator that always answers 1 the stack after three rounds holds the run \<open>[3, 2]\<close>,
  which is not sorted.
\<close>

theorem pending_sizes_not_set_bits:
  "(\<exists>list pending h'.
      list_sort_rounds (\<lambda>a b. int a - int b) 2
        (nxt (queue_of [''c'', ''a'', ''b'']) 1, 0, 0,
         (queue_of [''c'', ''a'', ''b''])
           \<lparr>nxt := (nxt (queue_of [''c'', ''a'', ''b'']))(prv (queue_of [''c'', ''a'', ''b'']) 1 := 0)\<rparr>) =
        Some (list, pending, 2, h') \<and>
      pstack h' pending [[3], [2]] \<and>
      spec_set_bit_sizes 2 = [2] \<and>
      \<not> (\<exists>rs. pstack h' pending rs \<and> mset (map length rs) = mset (spec_set_bit_sizes 2))) \<and>
   (\<exists>list pending h'.
      list_sort_rounds (\<lambda>a b. 1) 3
        (nxt (queue_of [''c'', ''a'', ''b'']) 1, 0, 0,
         (queue_of [''c'', ''a'', ''b''])
           \<lparr>nxt := (nxt (queue_of [''c'', ''a'', ''b'']))(prv (queue_of [''c'', ''a'', ''b'']) 1 := 0)\<rparr>) =
        Some (list, pending, 3, h') \<and>
      pstack h' pending [[4], [3, 2]] \<and>
      \<not> sorted_wrt (\<lambda>a b. (1 :: int) \<le> 0) [3 :: nat, 2])"
proof
  let ?q = "queue_of [''c'', ''a'', ''b'']"
  let ?st = "(nxt ?q 1, 0, 0, ?q\<lparr>nxt := (nxt ?q)(prv ?q 1 := 0)\<rparr>)"
  have r: "ring ?q 1 [2, 3, 4]" by (rule ring_sample_3) simp
  have ne: "[2, 3, 4 :: nat] \<noteq> []" and l: "length [2, 3, 4 :: nat] < 2 ^ 64"
    and k2: "2 \<le> length [2, 3, 4 :: nat]" and k3: "3 \<le> length [2, 3, 4 :: nat]"
    by simp_all
  have s: "spec_set_bit_sizes 2 = [2]" by (simp add: spec_set_bit_sizes.simps)
  have p2: "pending_runs (\<lambda>a b. int a - int b) (take 2 [2, 3, 4]) = [[3], [2]]"
    by (simp add: pending_runs_def)
  from list_sort_rounds_ring[OF r ne l k2, of "\<lambda>a b. int a - int b"] obtain list pending h' where
    h': "list_sort_rounds (\<lambda>a b. int a - int b) 2 ?st = Some (list, pending, 2, h')"
        "pstack h' pending [[3], [2]]"
    unfolding p2 by blast
  have "\<not> (\<exists>rs. pstack h' pending rs \<and> mset (map length rs) = mset (spec_set_bit_sizes 2))"
  proof
    assume "\<exists>rs. pstack h' pending rs \<and> mset (map length rs) = mset (spec_set_bit_sizes 2)"
    then obtain rs where rs: "pstack h' pending rs" "mset (map length rs) = mset (spec_set_bit_sizes 2)"
      by blast
    have "rs = [[3], [2]]" by (rule pstack_unique[OF rs(1) h'(2)])
    then show False using rs(2) unfolding s by simp
  qed
  then show "\<exists>list pending h'.
      list_sort_rounds (\<lambda>a b. int a - int b) 2 ?st = Some (list, pending, 2, h') \<and>
      pstack h' pending [[3], [2]] \<and> spec_set_bit_sizes 2 = [2] \<and>
      \<not> (\<exists>rs. pstack h' pending rs \<and> mset (map length rs) = mset (spec_set_bit_sizes 2))"
    using h' s by blast
  have p3: "pending_runs (\<lambda>a b. 1) (take 3 [2, 3, 4]) = [[4], [3, 2]]"
    by (simp add: pending_runs_def)
  from list_sort_rounds_ring[OF r ne l k3, of "\<lambda>a b. 1"] obtain list pending h' where
    "list_sort_rounds (\<lambda>a b. 1) 3 ?st = Some (list, pending, 3, h')"
    "pstack h' pending [[4], [3, 2]]"
    unfolding p3 by blast
  moreover have "\<not> sorted_wrt (\<lambda>a b. (1 :: int) \<le> 0) [3 :: nat, 2]" by simp
  ultimately show "\<exists>list pending h'.
      list_sort_rounds (\<lambda>a b. 1) 3 ?st = Some (list, pending, 3, h') \<and>
      pstack h' pending [[4], [3, 2]] \<and> \<not> sorted_wrt (\<lambda>a b. (1 :: int) \<le> 0) [3 :: nat, 2]"
    by blast
qed

end
